theory Spec2Isabelle
  imports Main "HOL-Library.Multiset"
begin

section \<open>Strings, runes and white space\<close>

text \<open>
  A Go string is a sequence of bytes; it is modelled as a \<open>string\<close>, one \<open>char\<close> per
  byte. The library functions the program calls on strings (\<open>strings.Fields\<close>,
  \<open>fmt.Sscanf\<close>) read a string rune by rune, decoding UTF-8 as \<open>utf8.DecodeRune\<close>
  does: a byte sequence that is no valid encoding is read as the rune U+FFFD
  (\<open>RuneError\<close>) of width 1.
\<close>

definition byte :: "char \<Rightarrow> int" where
  "byte c = of_char c"

definition RuneError :: int where
  "RuneError = 0xFFFD"

text \<open>The table \<open>first\<close> of package utf8, read as the length of the sequence a lead
  byte announces: 1 for ASCII, 0 for a byte that starts no sequence.\<close>

definition seqLen :: "int \<Rightarrow> nat" where
  "seqLen p0 =
     (if p0 < 0x80 then 1
      else if p0 < 0xC2 then 0
      else if p0 \<le> 0xDF then 2
      else if p0 \<le> 0xEF then 3
      else if p0 \<le> 0xF4 then 4
      else 0)"

text \<open>The table \<open>acceptRanges\<close>: the range allowed for the second byte.\<close>

definition acceptRange :: "int \<Rightarrow> int \<times> int" where
  "acceptRange p0 =
     (if p0 = 0xE0 then (0xA0, 0xBF)
      else if p0 = 0xED then (0x80, 0x9F)
      else if p0 = 0xF0 then (0x90, 0xBF)
      else if p0 = 0xF4 then (0x80, 0x8F)
      else (0x80, 0xBF))"

definition isCont :: "int \<Rightarrow> bool" where
  "isCont b = (0x80 \<le> b \<and> b \<le> 0xBF)"

text \<open>\<open>utf8.DecodeRune\<close>: the rune at the front of the bytes and its width.\<close>

fun DecodeRune :: "string \<Rightarrow> int \<times> nat" where
  "DecodeRune [] = (RuneError, 0)"
| "DecodeRune (c0 # p) =
     (let p0 = byte c0; sz = seqLen p0 in
      if sz = 1 then (p0, 1)
      else if sz = 0 then (RuneError, 1)
      else if Suc (length p) < sz then (RuneError, 1)
      else
        let b1 = byte (p ! 0) in
        if b1 < fst (acceptRange p0) \<or> snd (acceptRange p0) < b1 then (RuneError, 1)
        else if sz \<le> 2 then ((p0 mod 32) * 64 + b1 mod 64, 2)
        else
          let b2 = byte (p ! 1) in
          if \<not> isCont b2 then (RuneError, 1)
          else if sz \<le> 3 then ((p0 mod 16) * 4096 + (b1 mod 64) * 64 + b2 mod 64, 3)
          else
            let b3 = byte (p ! 2) in
            if \<not> isCont b3 then (RuneError, 1)
            else ((p0 mod 8) * 262144 + (b1 mod 64) * 4096 + (b2 mod 64) * 64
                    + b3 mod 64, 4))"

declare DecodeRune.simps [simp del]

text \<open>\<open>unicode.IsSpace\<close> (the table \<open>space\<close> of package fmt lists the same runes).\<close>

definition isSpace :: "int \<Rightarrow> bool" where
  "isSpace r =
     ((0x09 \<le> r \<and> r \<le> 0x0D) \<or> r = 0x20 \<or> r = 0x85 \<or> r = 0xA0 \<or> r = 0x1680
      \<or> (0x2000 \<le> r \<and> r \<le> 0x200A) \<or> r = 0x2028 \<or> r = 0x2029 \<or> r = 0x202F
      \<or> r = 0x205F \<or> r = 0x3000)"

text \<open>
  \<open>strings.Fields\<close>: the maximal runs of runes that are not white space, in order.
  \<open>FieldsFrom cur s\<close> walks \<open>s\<close> rune by rune with \<open>cur\<close> the bytes of the field
  under way (empty between fields).
\<close>

fun FieldsFrom :: "string \<Rightarrow> string \<Rightarrow> string list" where
  "FieldsFrom cur [] = (if cur = [] then [] else [cur])"
| "FieldsFrom cur (c # s) =
     (if isSpace (fst (DecodeRune (c # s)))
      then (if cur = [] then [] else [cur])
             @ FieldsFrom [] (drop (snd (DecodeRune (c # s)) - 1) s)
      else FieldsFrom (cur @ take (snd (DecodeRune (c # s))) (c # s))
             (drop (snd (DecodeRune (c # s)) - 1) s))"

declare FieldsFrom.simps(2) [simp del]

definition Fields :: "string \<Rightarrow> string list" where
  "Fields s = FieldsFrom [] s"

text \<open>
  A string is valid UTF-8 when no step of the walk over its runes meets a byte
  sequence that is no encoding, and free of white space when no rune of the walk is
  white space.
\<close>

fun validUTF8 :: "string \<Rightarrow> bool" where
  "validUTF8 [] = True"
| "validUTF8 (c # s) =
     (DecodeRune (c # s) \<noteq> (RuneError, 1)
      \<and> validUTF8 (drop (snd (DecodeRune (c # s)) - 1) s))"

declare validUTF8.simps(2) [simp del]

fun noSpace :: "string \<Rightarrow> bool" where
  "noSpace [] = True"
| "noSpace (c # s) =
     (\<not> isSpace (fst (DecodeRune (c # s)))
      \<and> noSpace (drop (snd (DecodeRune (c # s)) - 1) s))"

declare noSpace.simps(2) [simp del]

text \<open>
  \<open>walksOver k rest\<close>: the walk over the runes of \<open>k @ rest\<close> goes through \<open>k\<close> in
  steps that are not white space, and a step ends where \<open>k\<close> ends. This is how a
  field lies in its line.
\<close>

fun walksOver :: "string \<Rightarrow> string \<Rightarrow> bool" where
  "walksOver [] rest = True"
| "walksOver (c # k) rest =
     (\<not> isSpace (fst (DecodeRune (c # k @ rest)))
      \<and> snd (DecodeRune (c # k @ rest)) \<le> Suc (length k)
      \<and> walksOver (drop (snd (DecodeRune (c # k @ rest)) - 1) k) rest)"

declare walksOver.simps(2) [simp del]

section \<open>Records and the record parser\<close>

record EHR =
  PatientID :: string
  Name :: string
  Age :: string
  Diagnosis :: string
  Treatment :: string

text \<open>A run-time panic of the Go program; it ends the whole process.\<close>

datatype panic =
    IndexOutOfRange nat nat  \<comment> \<open>index, length\<close>
  | MakechanSize

text \<open>An index expression \<open>xs[i]\<close>: Go checks the bound and panics outside it.\<close>

definition index :: "'a list \<Rightarrow> nat \<Rightarrow> panic + 'a" where
  "index xs i = (if i < length xs then Inr (xs ! i) else Inl (IndexOutOfRange i (length xs)))"

text \<open>
  \<open>ParseEHR\<close> splits the line and reads the fields 0 to 5, in the order of the
  composite literal, with no check of the number of fields before.
\<close>

definition ParseEHR :: "string \<Rightarrow> panic + EHR" where
  "ParseEHR line =
     (let fields = Fields line in
      case index fields 0 of Inl e \<Rightarrow> Inl e | Inr f0 \<Rightarrow>
      case index fields 1 of Inl e \<Rightarrow> Inl e | Inr f1 \<Rightarrow>
      case index fields 2 of Inl e \<Rightarrow> Inl e | Inr f2 \<Rightarrow>
      case index fields 3 of Inl e \<Rightarrow> Inl e | Inr f3 \<Rightarrow>
      case index fields 4 of Inl e \<Rightarrow> Inl e | Inr f4 \<Rightarrow>
      case index fields 5 of Inl e \<Rightarrow> Inl e | Inr f5 \<Rightarrow>
        Inr \<lparr>PatientID = f0, Name = f1 @ '' '' @ f2, Age = f3,
             Diagnosis = f4, Treatment = f5\<rparr>)"

section \<open>Count tables\<close>

text \<open>
  A Go \<open>map[string]int\<close> is modelled as a list of entries with distinct keys. Reading
  a missing key gives 0, so \<open>m[k] += c\<close> (and \<open>m[k]++\<close>, which is \<open>m[k] += 1\<close>)
  adds an entry where there was none. The position of an entry in the list is not
  observable: the only way the program enumerates a table is a \<open>range\<close> loop, whose
  order Go leaves unspecified. \<open>rangeOrder\<close> makes that choice a parameter: the
  list of numbers picks, at each step, which of the remaining entries comes next.

  An \<open>int\<close> is taken to have 64 bits, as on the 64-bit platforms (\<open>Sscanf\<close> parses a
  count with that size). An addition that leaves the range wraps around: \<open>wrap64\<close>.
\<close>

type_synonym counts = "(string \<times> int) list"

definition wrap64 :: "int \<Rightarrow> int" where
  "wrap64 i = (i + 9223372036854775808) mod 18446744073709551616 - 9223372036854775808"

fun addCount :: "string \<Rightarrow> int \<Rightarrow> counts \<Rightarrow> counts" where
  "addCount k c [] = [(k, wrap64 (0 + c))]"
| "addCount k c ((k', v) # m) =
     (if k = k' then (k', wrap64 (v + c)) # m else (k', v) # addCount k c m)"

definition lookup :: "counts \<Rightarrow> string \<Rightarrow> int" where
  "lookup m k = (case map_of m k of None \<Rightarrow> 0 | Some v \<Rightarrow> v)"

fun rangeOrder :: "nat list \<Rightarrow> 'a list \<Rightarrow> 'a list" where
  "rangeOrder ss [] = []"
| "rangeOrder [] xs = xs"
| "rangeOrder (s # ss) xs =
     (let i = s mod length xs in xs ! i # rangeOrder ss (take i xs @ drop (Suc i) xs))"

section \<open>Formatting and scanning\<close>

text \<open>The verbs \<open>%v\<close> and \<open>%d\<close> print an \<open>int\<close> in decimal.\<close>

definition digitChar :: "nat \<Rightarrow> char" where
  "digitChar d = char_of (48 + int d)"

fun digitsOf :: "nat \<Rightarrow> string" where
  "digitsOf n = (if n < 10 then [digitChar n] else digitsOf (n div 10) @ [digitChar (n mod 10)])"

declare digitsOf.simps [simp del]

text \<open>A decimal digit.\<close>

definition isDigit :: "char \<Rightarrow> bool" where
  "isDigit c = (48 \<le> byte c \<and> byte c \<le> 57)"

definition itoa :: "int \<Rightarrow> string" where
  "itoa i = (if i < 0 then CHR ''-'' # digitsOf (nat (- i)) else digitsOf (nat i))"

text \<open>The line \<open>fmt.Fprintf(f, "%v %v\n", value, count)\<close> writes.\<close>

definition countLine :: "string \<times> int \<Rightarrow> string" where
  "countLine e = fst e @ '' '' @ itoa (snd e)"

text \<open>
  \<open>utf8.AppendRune\<close>: the bytes of a rune. The scanner of package fmt builds a token
  from the runes it reads with it, so a byte that is no valid UTF-8 comes back as
  the three bytes of U+FFFD.
\<close>

definition encodeRune :: "int \<Rightarrow> int list" where
  "encodeRune r =
     (if 0 \<le> r \<and> r \<le> 0x7F then [r]
      else if 0 \<le> r \<and> r \<le> 0x7FF then [0xC0 + r div 64, 0x80 + r mod 64]
      else if r < 0 \<or> r > 0x10FFFF \<or> (0xD800 \<le> r \<and> r \<le> 0xDFFF) then [0xEF, 0xBF, 0xBD]
      else if r \<le> 0xFFFF then [0xE0 + r div 4096, 0x80 + (r div 64) mod 64, 0x80 + r mod 64]
      else [0xF0 + r div 262144, 0x80 + (r div 4096) mod 64, 0x80 + (r div 64) mod 64,
            0x80 + r mod 64])"

definition AppendRune :: "string \<Rightarrow> int \<Rightarrow> string" where
  "AppendRune p r = p @ map char_of (encodeRune r)"

text \<open>
  \<open>SkipSpace\<close> of the scan state, as \<open>Sscanf\<close> runs it (a newline is not a space
  there): white space is dropped; a newline is the error "unexpected newline",
  the value \<open>None\<close>.
\<close>

fun SkipSpace :: "string \<Rightarrow> string option" where
  "SkipSpace [] = Some []"
| "SkipSpace (c # s) =
     (if c = CHR 0x0A then None
      else if isSpace (fst (DecodeRune (c # s)))
      then SkipSpace (drop (snd (DecodeRune (c # s)) - 1) s)
      else Some (c # s))"

declare SkipSpace.simps(2) [simp del]

text \<open>\<open>token(true, notSpace)\<close> after the spaces are skipped: the runes up to the next
  white space, appended to the buffer \<open>buf\<close>, and the input left.\<close>

fun token :: "string \<Rightarrow> string \<Rightarrow> string \<times> string" where
  "token buf [] = (buf, [])"
| "token buf (c # s) =
     (if isSpace (fst (DecodeRune (c # s))) then (buf, c # s)
      else token (AppendRune buf (fst (DecodeRune (c # s))))
             (drop (snd (DecodeRune (c # s)) - 1) s))"

declare token.simps(2) [simp del]

text \<open>\<open>strconv.ParseInt(tok, 0, 64)\<close>, base 0: the base is read off the prefix and
  underscores may separate digits.\<close>

definition lower :: "int \<Rightarrow> int" where
  "lower c = (if (c div 32) mod 2 = 0 then c + 32 else c)"

definition digitVal :: "char \<Rightarrow> int option" where
  "digitVal ch =
     (let c = byte ch in
      if 48 \<le> c \<and> c \<le> 57 then Some (c - 48)
      else if 97 \<le> lower c \<and> lower c \<le> 122 then Some (lower c - 97 + 10)
      else None)"

text \<open>The loop of \<open>ParseUint\<close> over the digits, without its overflow checks: the
  value is bounded afterwards, which rejects the same inputs.\<close>

fun parseDigits :: "int \<Rightarrow> int \<Rightarrow> string \<Rightarrow> int option" where
  "parseDigits base n [] = Some n"
| "parseDigits base n (c # s) =
     (if c = CHR ''_'' then parseDigits base n s
      else case digitVal c of
             None \<Rightarrow> None
           | Some d \<Rightarrow> if d \<ge> base then None else parseDigits base (n * base + d) s)"

text \<open>\<open>underscoreOK\<close>: \<open>saw\<close> is the kind of the last character seen.\<close>

datatype saw = SawStart | SawDigit | SawUnderscore | SawOther

fun underscoreLoop :: "bool \<Rightarrow> saw \<Rightarrow> string \<Rightarrow> bool" where
  "underscoreLoop hex sw [] = (sw \<noteq> SawUnderscore)"
| "underscoreLoop hex sw (ch # s) =
     (let c = byte ch in
      if (48 \<le> c \<and> c \<le> 57) \<or> (hex \<and> 97 \<le> lower c \<and> lower c \<le> 102)
      then underscoreLoop hex SawDigit s
      else if ch = CHR ''_''
      then (if sw \<noteq> SawDigit then False else underscoreLoop hex SawUnderscore s)
      else if sw = SawUnderscore then False
      else underscoreLoop hex SawOther s)"

definition isPrefixLetter :: "char \<Rightarrow> char \<Rightarrow> bool" where
  "isPrefixLetter l ch = (lower (byte ch) = byte l)"

definition underscoreOK :: "string \<Rightarrow> bool" where
  "underscoreOK s0 =
     (let s = (case s0 of c # r \<Rightarrow> if c = CHR ''-'' \<or> c = CHR ''+'' then r else s0 | [] \<Rightarrow> s0)
      in case s of
           z # l # r \<Rightarrow>
             if z = CHR ''0'' \<and> (isPrefixLetter CHR ''b'' l \<or> isPrefixLetter CHR ''o'' l
                                  \<or> isPrefixLetter CHR ''x'' l)
             then underscoreLoop (isPrefixLetter CHR ''x'' l) SawDigit r
             else underscoreLoop False SawStart s
         | _ \<Rightarrow> underscoreLoop False SawStart s)"

definition ParseUint :: "string \<Rightarrow> int option" where
  "ParseUint s =
     (if s = [] then None
      else
        let (base, ds) =
          (if hd s = CHR ''0'' then
             (if length s \<ge> 3 \<and> isPrefixLetter CHR ''b'' (s ! 1) then (2, drop 2 s)
              else if length s \<ge> 3 \<and> isPrefixLetter CHR ''o'' (s ! 1) then (8, drop 2 s)
              else if length s \<ge> 3 \<and> isPrefixLetter CHR ''x'' (s ! 1) then (16, drop 2 s)
              else (8, drop 1 s))
           else (10, s))
        in case parseDigits base 0 ds of
             None \<Rightarrow> None
           | Some n \<Rightarrow>
               if CHR ''_'' \<in> set ds \<and> \<not> underscoreOK s then None
               else if n \<ge> 18446744073709551616 then None
               else Some n)"

definition ParseInt :: "string \<Rightarrow> int option" where
  "ParseInt s0 =
     (if s0 = [] then None
      else
        let neg = (hd s0 = CHR ''-'');
            s = (if hd s0 = CHR ''+'' \<or> hd s0 = CHR ''-'' then tl s0 else s0)
        in case ParseUint s of
             None \<Rightarrow> None
           | Some un \<Rightarrow>
               if \<not> neg \<and> un \<ge> 9223372036854775808 then None
               else if neg \<and> un > 9223372036854775808 then None
               else Some (if neg then - un else un))"

text \<open>
  \<open>scanInt\<close> for the verb \<open>%v\<close> (after its \<open>SkipSpace\<close>): an optional sign, the base
  prefix (\<open>scanBasePrefix\<close>), the digits (\<open>scanNumber\<close>), then \<open>ParseInt\<close> on the
  token. \<open>None\<close> is a scan error; the operand is not assigned then.
\<close>

definition scanInt :: "string \<Rightarrow> int option" where
  "scanInt inp =
     (if inp = [] then None
      else
        let sg = (if hd inp = CHR ''+'' \<or> hd inp = CHR ''-'' then [hd inp] else []);
            r1 = drop (length sg) inp
        in
        if r1 \<noteq> [] \<and> hd r1 = CHR ''0'' then
          (let r2 = tl r1 in
           if r2 \<noteq> [] \<and> hd r2 \<in> set ''bB''
           then ParseInt (sg @ [CHR ''0'', hd r2] @ takeWhile (\<lambda>c. c \<in> set ''01_'') (tl r2))
           else if r2 \<noteq> [] \<and> hd r2 \<in> set ''oO''
           then ParseInt (sg @ [CHR ''0'', hd r2] @ takeWhile (\<lambda>c. c \<in> set ''01234567_'') (tl r2))
           else if r2 \<noteq> [] \<and> hd r2 \<in> set ''xX''
           then ParseInt (sg @ [CHR ''0'', hd r2]
                            @ takeWhile (\<lambda>c. c \<in> set ''0123456789aAbBcCdDeEfF_'') (tl r2))
           else ParseInt (sg @ [CHR ''0''] @ takeWhile (\<lambda>c. c \<in> set ''01234567_'') r2))
        else if r1 = [] \<or> hd r1 \<notin> set ''0123456789_'' then None
        else ParseInt (sg @ takeWhile (\<lambda>c. c \<in> set ''0123456789_'') r1))"

text \<open>
  \<open>fmt.Sscanf(line, "%v %v", &value, &count)\<close> on fresh variables
  (\<open>value = ""\<close>, \<open>count = 0\<close>): the values of the two variables afterwards and the
  number of operands scanned. Fewer than 2 means that \<open>Sscanf\<close> returned an error;
  an operand that was not reached keeps its zero value.
\<close>

definition Sscanf :: "string \<Rightarrow> string \<times> int \<times> nat" where
  "Sscanf line =
     (case SkipSpace line of
        None \<Rightarrow> ([], 0, 0)
      | Some [] \<Rightarrow> ([], 0, 0)
      | Some in1 \<Rightarrow>
          let (tok, in2) = token [] in1 in
          case SkipSpace in2 of
            None \<Rightarrow> (tok, 0, 1)
          | Some in3 \<Rightarrow>
              (case scanInt in3 of
                 None \<Rightarrow> (tok, 0, 1)
               | Some n \<Rightarrow> (tok, n, 2)))"

text \<open>The pair \<open>(value, count)\<close> the scan loop of the reduce task takes from a line.\<close>

definition scanPair :: "string \<Rightarrow> string \<times> int" where
  "scanPair l = (fst (Sscanf l), fst (snd (Sscanf l)))"

section \<open>Files\<close>

text \<open>
  The working directory: \<open>contents\<close> gives the bytes of each file that can be
  opened, \<open>refused\<close> the names \<open>os.Create\<close> fails on. The program ignores the
  result of every write, and the model takes writes to an open file to succeed.
\<close>

record FS =
  contents :: "string \<Rightarrow> string option"
  refused :: "string set"

datatype error =
    PathError string  \<comment> \<open>\<open>os.Open\<close> or \<open>os.Create\<close> failed on the name\<close>
  | ErrTooLong  \<comment> \<open>\<open>bufio.Scanner\<close>: token too long\<close>
  | Errorf string

definition os_Open :: "FS \<Rightarrow> string \<Rightarrow> error + string" where
  "os_Open fs name =
     (case contents fs name of None \<Rightarrow> Inl (PathError name) | Some bs \<Rightarrow> Inr bs)"

definition os_Create :: "FS \<Rightarrow> string \<Rightarrow> error + FS" where
  "os_Create fs name =
     (if name \<in> refused fs then Inl (PathError name)
      else Inr (fs\<lparr>contents := (contents fs)(name \<mapsto> [])\<rparr>))"

text \<open>The bytes a file holds, none for a file that is not there.\<close>

definition bytesOf :: "FS \<Rightarrow> string \<Rightarrow> string" where
  "bytesOf fs name = (case contents fs name of None \<Rightarrow> [] | Some b \<Rightarrow> b)"

definition Fprint :: "FS \<Rightarrow> string \<Rightarrow> string \<Rightarrow> FS" where
  "Fprint fs name s = fs\<lparr>contents := (contents fs)(name \<mapsto> bytesOf fs name @ s)\<rparr>"

text \<open>
  \<open>bufio.Scanner\<close> with the split function \<open>ScanLines\<close>: \<open>rawLines\<close> cuts at each
  newline (a last line need not end in one); \<open>Scan\<close> gives the lines the loop
  \<open>for scanner.Scan()\<close> sees, each without its trailing carriage return, and what
  \<open>scanner.Err()\<close> returns afterwards. A line of \<open>MaxScanTokenSize\<close> bytes or more
  does not fit the buffer: the scanner stops there with \<open>ErrTooLong\<close>.
\<close>

fun rawLines :: "string \<Rightarrow> string \<Rightarrow> string list" where
  "rawLines cur [] = (if cur = [] then [] else [cur])"
| "rawLines cur (c # s) =
     (if c = CHR 0x0A then cur # rawLines [] s else rawLines (cur @ [c]) s)"

definition dropCR :: "string \<Rightarrow> string" where
  "dropCR l = (if l \<noteq> [] \<and> last l = CHR 0x0D then butlast l else l)"

definition MaxScanTokenSize :: int where
  "MaxScanTokenSize = 64 * 1024"

fun scanTokens :: "string list \<Rightarrow> string list \<times> error option" where
  "scanTokens [] = ([], None)"
| "scanTokens (r # rs) =
     (if int (length r) \<ge> MaxScanTokenSize then ([], Some ErrTooLong)
      else (dropCR r # fst (scanTokens rs), snd (scanTokens rs)))"

definition Scan :: "string \<Rightarrow> string list \<times> error option" where
  "Scan bs = scanTokens (rawLines [] bs)"

section \<open>Map and reduce tasks\<close>

text \<open>The names \<open>fmt.Sprintf\<close> gives the two intermediate files of a map task.\<close>

definition diagnosisName :: "string \<Rightarrow> int \<Rightarrow> string" where
  "diagnosisName filename task = ''map-diagnosis-'' @ filename @ ''-'' @ itoa task @ ''.txt''"

definition treatmentName :: "string \<Rightarrow> int \<Rightarrow> string" where
  "treatmentName filename task = ''map-treatment-'' @ filename @ ''-'' @ itoa task @ ''.txt''"

text \<open>The loop \<open>for value, count := range counts\<close> that prints one line per entry
  to the open file \<open>name\<close>, in the order \<open>seed\<close> picks.\<close>

definition writeCounts :: "FS \<Rightarrow> string \<Rightarrow> nat list \<Rightarrow> counts \<Rightarrow> FS" where
  "writeCounts fs name seed m =
     foldl (\<lambda>f e. Fprint f name (countLine e @ [CHR 0x0A])) fs (rangeOrder seed m)"

text \<open>The pairs the scan loop of the reduce task takes from the bytes of a file.\<close>

definition pairsRead :: "string \<Rightarrow> (string \<times> int) list" where
  "pairsRead bs = map scanPair (fst (Scan bs))"

text \<open>
  An entry of a count table that the intermediate format carries as it is: the
  value is not empty, is valid UTF-8 and holds no white space; the count is positive
  and fits an \<open>int\<close> of 64 bits; the line printed for it fits the buffer of the
  scanner.
\<close>

definition plainEntry :: "string \<times> int \<Rightarrow> bool" where
  "plainEntry e =
     (fst e \<noteq> [] \<and> validUTF8 (fst e) \<and> noSpace (fst e)
      \<and> 0 < snd e \<and> snd e < 9223372036854775808
      \<and> int (length (countLine e)) < MaxScanTokenSize)"

text \<open>A table whose values are not empty and, when valid UTF-8, free of white
  space, and whose counts lie between 1 and \<open>n\<close>.\<close>

definition tallyInv :: "nat \<Rightarrow> counts \<Rightarrow> bool" where
  "tallyInv n m =
     (\<forall>e \<in> set m. fst e \<noteq> [] \<and> (validUTF8 (fst e) \<longrightarrow> noSpace (fst e))
                   \<and> 0 < snd e \<and> snd e \<le> int n)"

text \<open>The scan loop of \<open>MapTask\<close>: each line is parsed and counted; a panic of
  \<open>ParseEHR\<close> ends the loop (and the process).\<close>

fun tallyLines :: "string list \<Rightarrow> counts \<times> counts \<Rightarrow> panic + counts \<times> counts" where
  "tallyLines [] acc = Inr acc"
| "tallyLines (l # ls) acc =
     (case ParseEHR l of
        Inl p \<Rightarrow> Inl p
      | Inr ehr \<Rightarrow>
          tallyLines ls (addCount (Diagnosis ehr) 1 (fst acc), addCount (Treatment ehr) 1 (snd acc)))"

text \<open>
  \<open>MapTask\<close> (its parameter \<open>mr\<close> is not used and is left out). The result is
  \<open>Inl\<close> when the goroutine panics, else what the task sends on \<open>results\<close> (\<open>None\<close>
  for \<open>nil\<close>) with the files as the task leaves them. \<open>sd\<close> and \<open>st\<close> are the orders
  of the two \<open>range\<close> loops.
\<close>

definition MapTask ::
  "string \<Rightarrow> int \<Rightarrow> FS \<Rightarrow> nat list \<Rightarrow> nat list \<Rightarrow> panic + error option \<times> FS" where
  "MapTask filename task fs sd st =
     (case os_Open fs filename of
        Inl e \<Rightarrow> Inr (Some e, fs)
      | Inr bs \<Rightarrow>
          (case tallyLines (fst (Scan bs)) ([], []) of
             Inl p \<Rightarrow> Inl p
           | Inr tally \<Rightarrow>
               (case snd (Scan bs) of
                  Some e \<Rightarrow> Inr (Some e, fs)
                | None \<Rightarrow>
                    (case os_Create fs (diagnosisName filename task) of
                       Inl e \<Rightarrow> Inr (Some e, fs)
                     | Inr fs1 \<Rightarrow>
                         let fs2 = writeCounts fs1 (diagnosisName filename task) sd (fst tally) in
                         (case os_Create fs2 (treatmentName filename task) of
                            Inl e \<Rightarrow> Inr (Some e, fs2)
                          | Inr fs3 \<Rightarrow>
                              Inr (None, writeCounts fs3 (treatmentName filename task) st
                                           (snd tally)))))))"

text \<open>The scan loop of \<open>ReduceTask\<close> over one file: what \<open>Sscanf\<close> returns is not
  looked at; the two variables are added to the table as they are.\<close>

fun readCounts :: "string list \<Rightarrow> counts \<Rightarrow> counts" where
  "readCounts [] m = m"
| "readCounts (l # ls) m =
     readCounts ls (addCount (fst (Sscanf l)) (fst (snd (Sscanf l))) m)"

record MapReduce =
  Files :: "string list"
  NMap :: int
  NReduce :: int

text \<open>One round of the loop of \<open>ReduceTask\<close> over the map tasks: the files of map
  task \<open>i\<close>. The result is a panic, an error to report, or the two tables.\<close>

definition reduceStep ::
  "int \<Rightarrow> MapReduce \<Rightarrow> FS \<Rightarrow> counts \<times> counts \<Rightarrow> panic + (error + counts \<times> counts)" where
  "reduceStep i mr fs acc =
     (case index (Files mr) (nat i) of
        Inl p \<Rightarrow> Inl p
      | Inr f \<Rightarrow>
          (case os_Open fs (diagnosisName f i) of
             Inl e \<Rightarrow> Inr (Inl e)
           | Inr bs \<Rightarrow>
               (case snd (Scan bs) of
                  Some e \<Rightarrow> Inr (Inl e)
                | None \<Rightarrow>
                    (case os_Open fs (treatmentName f i) of
                       Inl e \<Rightarrow> Inr (Inl e)
                     | Inr bs' \<Rightarrow>
                         (case snd (Scan bs') of
                            Some e \<Rightarrow> Inr (Inl e)
                          | None \<Rightarrow>
                              Inr (Inr (readCounts (fst (Scan bs)) (fst acc),
                                        readCounts (fst (Scan bs')) (snd acc))))))))"

function reduceLoop ::
  "int \<Rightarrow> MapReduce \<Rightarrow> FS \<Rightarrow> counts \<times> counts \<Rightarrow> panic + (error + counts \<times> counts)" where
  "reduceLoop i mr fs acc =
     (if i < NMap mr then
        (case reduceStep i mr fs acc of
           Inr (Inr acc') \<Rightarrow> reduceLoop (i + 1) mr fs acc'
         | r \<Rightarrow> r)
      else Inr (Inr acc))"
  by pat_completeness auto
termination
  by (relation "measure (\<lambda>(i, mr, fs, acc). nat (NMap mr - i))") auto

declare reduceLoop.simps [simp del]

definition reportName :: string where
  "reportName = ''reduce-out.txt''"

text \<open>\<open>ReduceTask\<close> (its parameter \<open>task\<close> is not used). The result is read as that
  of \<open>MapTask\<close>.\<close>

definition ReduceTask ::
  "int \<Rightarrow> MapReduce \<Rightarrow> FS \<Rightarrow> nat list \<Rightarrow> nat list \<Rightarrow> panic + error option \<times> FS" where
  "ReduceTask task mr fs sd st =
     (case reduceLoop 0 mr fs ([], []) of
        Inl p \<Rightarrow> Inl p
      | Inr (Inl e) \<Rightarrow> Inr (Some e, fs)
      | Inr (Inr acc) \<Rightarrow>
          (case os_Create fs reportName of
             Inl e \<Rightarrow> Inr (Some e, fs)
           | Inr fs1 \<Rightarrow>
               let fs2 = Fprint fs1 reportName (''Diagnosis Counts:'' @ [CHR 0x0A]);
                   fs3 = writeCounts fs2 reportName sd (fst acc);
                   fs4 = Fprint fs3 reportName (''Treatment Counts:'' @ [CHR 0x0A])
               in Inr (None, writeCounts fs4 reportName st (snd acc))))"

section \<open>The two phases of \<open>main\<close>\<close>

text \<open>
  The part of \<open>main\<close> from the creation of the run configuration to the check of
  the reduce results. The listing of the directory (\<open>filenames\<close>) and the result of
  \<open>net.Listen\<close> (\<open>listenErr\<close>) are inputs. The map tasks run as goroutines; here each
  runs to its end before the next starts, in the order \<open>sched\<close> picks, and a panic
  ends the process at once. \<open>seeds i\<close> gives the orders of the two \<open>range\<close> loops of
  map task \<open>i\<close>, \<open>rseed\<close> those of the reduce task.
\<close>

fun runMapTasks ::
  "(string \<times> int) list \<Rightarrow> (int \<Rightarrow> nat list \<times> nat list) \<Rightarrow> FS
     \<Rightarrow> (panic + error option) list \<times> FS" where
  "runMapTasks [] seeds fs = ([], fs)"
| "runMapTasks (t # ts) seeds fs =
     (case MapTask (fst t) (snd t) fs (fst (seeds (snd t))) (snd (seeds (snd t))) of
        Inl p \<Rightarrow> ([Inl p], fs)
      | Inr r \<Rightarrow>
          (Inr (fst r) # fst (runMapTasks ts seeds (snd r)),
           snd (runMapTasks ts seeds (snd r))))"

fun firstPanic :: "(panic + error option) list \<Rightarrow> panic option" where
  "firstPanic [] = None"
| "firstPanic (Inl p # rs) = Some p"
| "firstPanic (Inr e # rs) = firstPanic rs"

text \<open>The loop \<open>for err := range mapResults\<close>: the first error that is not \<open>nil\<close>.\<close>

fun firstError :: "(panic + error option) list \<Rightarrow> error option" where
  "firstError [] = None"
| "firstError (Inr (Some e) # rs) = Some e"
| "firstError (r # rs) = firstError rs"

datatype exit =
    Panicked panic
  | Fatal string error  \<comment> \<open>\<open>log.Fatal\<close>: the message and the error\<close>
  | PhasesDone

definition main_phases ::
  "string list \<Rightarrow> error option \<Rightarrow> nat list \<Rightarrow> (int \<Rightarrow> nat list \<times> nat list)
     \<Rightarrow> nat list \<times> nat list \<Rightarrow> FS \<Rightarrow> exit \<times> FS" where
  "main_phases filenames listenErr sched seeds rseed fs =
     (let nMap = int (length filenames);
          mr = \<lparr>Files = filenames, NMap = nMap, NReduce = 1\<rparr>
      in case listenErr of
           Some e \<Rightarrow> (Fatal ''Listener error:'' e, fs)
         | None \<Rightarrow>
             let run = runMapTasks (rangeOrder sched (zip filenames (map int [0..<length filenames])))
                         seeds fs
             in (case firstPanic (fst run) of
                   Some p \<Rightarrow> (Panicked p, snd run)
                 | None \<Rightarrow>
                     (case firstError (fst run) of
                        Some e \<Rightarrow> (Fatal ''Map task error:'' e, snd run)
                      | None \<Rightarrow>
                          (case ReduceTask 0 mr (snd run) (fst rseed) (snd rseed) of
                             Inl p \<Rightarrow> (Panicked p, snd run)
                           | Inr r \<Rightarrow>
                               (case fst r of
                                  Some e \<Rightarrow> (Fatal ''Reduce task error:'' e, snd r)
                                | None \<Rightarrow> (PhasesDone, snd r))))))"

section \<open>The coordinator\<close>

text \<open>
  \<open>mapTasks\<close> and \<open>reduceTasks\<close> are buffered channels, modelled as the queue of the
  values they hold. \<open>done\<close> is an unbuffered channel: it holds no value, and a send
  and a receive complete together. Its state is the goroutines blocked in a send
  (\<open>sendq\<close>) and those blocked in a receive (\<open>recvq\<close>), each in the order of arrival.
\<close>

record gate =
  sendq :: "nat list"
  recvq :: "nat list"

record Master =
  mr :: MapReduce
  mapTasks :: "int list"
  reduceTasks :: "int list"
  done_chan :: gate

text \<open>The loop \<open>for i := 0; i < n; i++ { ch <- i }\<close> on a channel with room for
  \<open>n\<close> values, so that no send blocks.\<close>

function sendAll :: "int \<Rightarrow> int \<Rightarrow> int list \<Rightarrow> int list" where
  "sendAll i n ch = (if i < n then sendAll (i + 1) n (ch @ [i]) else ch)"
  by pat_completeness auto
termination
  by (relation "measure (\<lambda>(i, n, ch). nat (n - i))") auto

declare sendAll.simps [simp del]

text \<open>\<open>NewMaster\<close>: \<open>make(chan int, n)\<close> panics when \<open>n\<close> is negative.\<close>

definition NewMaster :: "MapReduce \<Rightarrow> panic + Master" where
  "NewMaster r =
     (if NMap r < 0 \<or> NReduce r < 0 then Inl MakechanSize
      else Inr \<lparr>mr = r, mapTasks = sendAll 0 (NMap r) [], reduceTasks = sendAll 0 (NReduce r) [],
               done_chan = \<lparr>sendq = [], recvq = []\<rparr>\<rparr>)"

text \<open>\<open>AssignMapTask\<close> and \<open>AssignReduceTask\<close>: a \<open>select\<close> with a \<open>default\<close> branch
  takes the first value of the channel if there is one and does not block
  otherwise. The result is the error or the reply, with the coordinator after.\<close>

definition AssignMapTask :: "Master \<Rightarrow> (error + int) \<times> Master" where
  "AssignMapTask m =
     (case mapTasks m of
        task # rest \<Rightarrow> (Inr task, m\<lparr>mapTasks := rest\<rparr>)
      | [] \<Rightarrow> (Inl (Errorf ''no more map tasks''), m))"

definition AssignReduceTask :: "Master \<Rightarrow> (error + int) \<times> Master" where
  "AssignReduceTask m =
     (case reduceTasks m of
        task # rest \<Rightarrow> (Inr task, m\<lparr>reduceTasks := rest\<rparr>)
      | [] \<Rightarrow> (Inl (Errorf ''no more reduce tasks''), m))"

datatype request = ReqMap | ReqReduce

text \<open>The coordinator serving a sequence of lease requests, with the log of its
  replies.\<close>

fun serve :: "request list \<Rightarrow> Master \<Rightarrow> (request \<times> (error + int)) list \<times> Master" where
  "serve [] m = ([], m)"
| "serve (ReqMap # rs) m =
     ((ReqMap, fst (AssignMapTask m)) # fst (serve rs (snd (AssignMapTask m))),
      snd (serve rs (snd (AssignMapTask m))))"
| "serve (ReqReduce # rs) m =
     ((ReqReduce, fst (AssignReduceTask m)) # fst (serve rs (snd (AssignReduceTask m))),
      snd (serve rs (snd (AssignReduceTask m))))"

text \<open>The task indices the log shows as leased to requests of kind \<open>q\<close>, in order.\<close>

fun leased :: "request \<Rightarrow> (request \<times> (error + int)) list \<Rightarrow> int list" where
  "leased q [] = []"
| "leased q ((q', Inr t) # l) = (if q = q' then t # leased q l else leased q l)"
| "leased q ((q', Inl e) # l) = leased q l"







section \<open>Observations and example inputs\<close>

text \<open>What a task reported, and a file as the task left it.\<close>

definition reported :: "panic + error option \<times> FS \<Rightarrow> panic + error option" where
  "reported r = (case r of Inl p \<Rightarrow> Inl p | Inr x \<Rightarrow> Inr (fst x))"

definition fileAfter :: "panic + error option \<times> FS \<Rightarrow> string \<Rightarrow> string option" where
  "fileAfter r name = (case r of Inl p \<Rightarrow> None | Inr x \<Rightarrow> contents (snd x) name)"

text \<open>The intermediate files of map task \<open>j\<close> can be opened and scanned to their end.\<close>

definition intermediateOK :: "MapReduce \<Rightarrow> FS \<Rightarrow> int \<Rightarrow> bool" where
  "intermediateOK r fs j =
     (nat j < length (Files r)
      \<and> (case contents fs (diagnosisName (Files r ! nat j) j) of
            None \<Rightarrow> False | Some bs \<Rightarrow> snd (Scan bs) = None)
      \<and> (case contents fs (treatmentName (Files r ! nat j) j) of
            None \<Rightarrow> False | Some bs \<Rightarrow> snd (Scan bs) = None))"

text \<open>
  The intermediate files of map task \<open>j\<close> are as that task writes them from its
  tables \<open>d\<close> (diagnoses) and \<open>t\<close> (treatments): one line for each entry, in the orders
  \<open>sd\<close> and \<open>st\<close>; the tables have no key twice and their entries are plain.
\<close>

definition mapOutput ::
  "MapReduce \<Rightarrow> FS \<Rightarrow> int \<Rightarrow> nat list \<Rightarrow> nat list \<Rightarrow> counts \<Rightarrow> counts \<Rightarrow> bool" where
  "mapOutput r fs j sd st d t =
     (nat j < length (Files r)
      \<and> distinct (map fst d) \<and> distinct (map fst t)
      \<and> (\<forall>e \<in> set d \<union> set t. plainEntry e)
      \<and> contents fs (diagnosisName (Files r ! nat j) j)
          = Some (concat (map (\<lambda>e. countLine e @ [CHR 0x0A]) (rangeOrder sd d)))
      \<and> contents fs (treatmentName (Files r ! nat j) j)
          = Some (concat (map (\<lambda>e. countLine e @ [CHR 0x0A]) (rangeOrder st t))))"



text \<open>Two partitions of three records each, and the intermediate files their map
  tasks write (in one of the orders the \<open>range\<close> loops may take).\<close>

definition mrAB :: MapReduce where
  "mrAB = \<lparr>Files = [''a.txt'', ''b.txt''], NMap = 2, NReduce = 1\<rparr>"

definition fsInput :: FS where
  "fsInput =
     \<lparr>contents =
        [''a.txt'' \<mapsto> ''1 Ann Lee 30 flu rest\<newline>2 Bob Ray 41 flu pills\<newline>3 Cy Dow 5 cold rest\<newline>'',
         ''b.txt'' \<mapsto> ''4 Di Fox 30 flu rest\<newline>5 Ed Gil 41 cold pills\<newline>6 Flo Hay 5 cold rest\<newline>''],
      refused = {}\<rparr>"

definition fsMapped :: FS where
  "fsMapped =
     \<lparr>contents =
        [''map-diagnosis-a.txt-0.txt'' \<mapsto> ''flu 2\<newline>cold 1\<newline>'',
         ''map-treatment-a.txt-0.txt'' \<mapsto> ''rest 2\<newline>pills 1\<newline>'',
         ''map-diagnosis-b.txt-1.txt'' \<mapsto> ''flu 1\<newline>cold 2\<newline>'',
         ''map-treatment-b.txt-1.txt'' \<mapsto> ''rest 2\<newline>pills 1\<newline>''],
      refused = {}\<rparr>"


definition noSeeds :: "int \<Rightarrow> nat list \<times> nat list" where
  "noSeeds i = ([], [])"

text \<open>A run configuration of one partition whose record has the byte \<open>0xFF\<close>, which
  is not valid UTF-8, as its diagnosis.\<close>

definition mrX :: MapReduce where
  "mrX = \<lparr>Files = [''x.txt''], NMap = 1, NReduce = 1\<rparr>"

definition fsFF :: FS where
  "fsFF =
     \<lparr>contents = [''x.txt'' \<mapsto> ''1 Ann Lee 30 '' @ [CHR 0xFF] @ '' rest\<newline>''],
      refused = {}\<rparr>"

text \<open>The tables of the two map tasks that wrote \<open>fsMapped\<close>.\<close>

definition tablesD :: "int \<Rightarrow> counts" where
  "tablesD j = (if j = 0 then [(''flu'', 2), (''cold'', 1)] else [(''flu'', 1), (''cold'', 2)])"

definition tablesT :: "int \<Rightarrow> counts" where
  "tablesT j = [(''rest'', 2), (''pills'', 1)]"

section \<open>The record parser: properties\<close>

text \<open>
  C1 (as the claim states it, refuted). The claim says that a line of fewer than six
  fields makes \<open>ParseEHR\<close> fail with a \<open>MalformedRecordError\<close> and that no index is
  ever read out of range. \<open>ParseEHR\<close> does not look at the number of fields: on the
  line \<open>1 John Doe 45\<close>, of four fields, it reads \<open>fields[4]\<close> of a slice of length 4,
  and the result is Go's index-out-of-range panic.
\<close>

theorem C1_counterexample:
  "ParseEHR ''1 John Doe 45'' = Inl (IndexOutOfRange 4 4)"
  by code_simp

text \<open>
  C1 (amended). For every line that splits into fewer than six fields, \<open>ParseEHR\<close>
  returns no record: it panics with the index-out-of-range error at the first index
  that is missing, which is the number of fields. \<open>ParseEHR\<close> returns a record exactly
  for the lines of six fields or more.
\<close>

theorem C1_short_line_panics:
  "(length (Fields line) < 6 \<longrightarrow>
      ParseEHR line = Inl (IndexOutOfRange (length (Fields line)) (length (Fields line))))
   \<and> ((\<exists>r. ParseEHR line = Inr r) \<longleftrightarrow> 6 \<le> length (Fields line))"
proof -
  have short: "ParseEHR line = Inl (IndexOutOfRange (length (Fields line)) (length (Fields line)))"
    if "length (Fields line) < 6"
  proof -
    let ?n = "length (Fields line)"
    from that have "?n = 0 \<or> ?n = 1 \<or> ?n = 2 \<or> ?n = 3 \<or> ?n = 4 \<or> ?n = 5" by arith
    then show ?thesis
      by (elim disjE) (auto simp: ParseEHR_def index_def Let_def)
  qed
  have long: "\<exists>r. ParseEHR line = Inr r" if "6 \<le> length (Fields line)"
    using that by (auto simp: ParseEHR_def index_def Let_def)
  show ?thesis
  proof (cases "length (Fields line) < 6")
    case True
    then show ?thesis using short by auto
  next
    case False
    then show ?thesis using long by auto
  qed
qed

theorem C1_short_line_panics_witness:
  "length (Fields ''7 Ann Lee'') < 6
   \<and> ParseEHR ''7 Ann Lee'' = Inl (IndexOutOfRange 3 3)
   \<and> \<not> (\<exists>r. ParseEHR ''7 Ann Lee'' = Inr r)"
proof -
  have n: "length (Fields ''7 Ann Lee'') = 3" by code_simp
  show ?thesis using C1_short_line_panics [of "''7 Ann Lee''"] by (simp add: n)
qed

text \<open>
  C8. For every line of at least six fields, \<open>ParseEHR\<close> returns a record (it is a
  function of the line, so the same line gives the same record): field 0 is the
  patient id, fields 1 and 2 joined by one space are the name, field 3 is the age,
  field 4 the diagnosis and field 5 the treatment.
\<close>

theorem C8_parse_total_positional:
  assumes "6 \<le> length (Fields line)"
  shows "ParseEHR line =
    Inr \<lparr>PatientID = Fields line ! 0,
         Name = Fields line ! 1 @ '' '' @ Fields line ! 2,
         Age = Fields line ! 3,
         Diagnosis = Fields line ! 4,
         Treatment = Fields line ! 5\<rparr>"
  using assms by (auto simp: ParseEHR_def index_def Let_def)

theorem C8_parse_total_positional_witness:
  "6 \<le> length (Fields ''17 Ann Lee 45 flu rest extra'')
   \<and> ParseEHR ''17 Ann Lee 45 flu rest extra'' =
       Inr \<lparr>PatientID = ''17'', Name = ''Ann Lee'', Age = ''45'',
            Diagnosis = ''flu'', Treatment = ''rest''\<rparr>"
proof -
  have f: "Fields ''17 Ann Lee 45 flu rest extra'' =
           [''17'', ''Ann'', ''Lee'', ''45'', ''flu'', ''rest'', ''extra'']"
    by code_simp
  have h: "6 \<le> length (Fields ''17 Ann Lee 45 flu rest extra'')"
    by (simp add: f)
  show ?thesis using h C8_parse_total_positional [OF h] by (simp add: f)
qed

section \<open>The coordinator: properties\<close>

lemma sendAll_upto: "sendAll i n ch = ch @ [i..n - 1]"
proof (induction i n ch rule: sendAll.induct)
  case (1 i n ch)
  show ?case
  proof (cases "i < n")
    case True
    then have "[i..n - 1] = i # [i + 1..n - 1]" by (simp add: upto_rec1)
    with True "1" show ?thesis by (simp add: sendAll.simps [of i n ch])
  next
    case False
    then show ?thesis by (simp add: sendAll.simps [of i n ch])
  qed
qed

lemma leased_serve_map:
  "leased ReqMap (fst (serve rs m)) = take (count_list rs ReqMap) (mapTasks m)"
proof (induction rs arbitrary: m)
  case Nil
  show ?case by simp
next
  case (Cons q rs)
  show ?case
  proof (cases q)
    case ReqMap
    then show ?thesis
      by (cases "mapTasks m") (simp_all add: Cons.IH AssignMapTask_def)
  next
    case ReqReduce
    then show ?thesis
      by (cases "reduceTasks m") (simp_all add: Cons.IH AssignReduceTask_def)
  qed
qed

lemma leased_serve_reduce:
  "leased ReqReduce (fst (serve rs m)) = take (count_list rs ReqReduce) (reduceTasks m)"
proof (induction rs arbitrary: m)
  case Nil
  show ?case by simp
next
  case (Cons q rs)
  show ?case
  proof (cases q)
    case ReqMap
    then show ?thesis
      by (cases "mapTasks m") (simp_all add: Cons.IH AssignMapTask_def)
  next
    case ReqReduce
    then show ?thesis
      by (cases "reduceTasks m") (simp_all add: Cons.IH AssignReduceTask_def)
  qed
qed

lemma mapTasks_serve:
  "mapTasks (snd (serve rs m)) = drop (count_list rs ReqMap) (mapTasks m)"
proof (induction rs arbitrary: m)
  case Nil
  show ?case by simp
next
  case (Cons q rs)
  show ?case
  proof (cases q)
    case ReqMap
    then show ?thesis
      by (cases "mapTasks m") (simp_all add: Cons.IH AssignMapTask_def)
  next
    case ReqReduce
    then show ?thesis
      by (cases "reduceTasks m") (simp_all add: Cons.IH AssignReduceTask_def)
  qed
qed

lemma NewMaster_queues:
  assumes "NewMaster r = Inr m"
  shows "mapTasks m = [0..NMap r - 1]" and "reduceTasks m = [0..NReduce r - 1]"
    and "done_chan m = \<lparr>sendq = [], recvq = []\<rparr>" and "0 \<le> NMap r" and "0 \<le> NReduce r"
  using assms by (auto simp: NewMaster_def sendAll_upto split: if_splits)

lemma upto0_nth: "k < nat n \<Longrightarrow> [0..n - 1] ! k = int k"
  by (simp add: nth_upto)


text \<open>
  C3. From a fresh coordinator with a map pool of size \<open>N\<close>, whatever the sequence
  of lease requests: the map task indices leased are all different; the requests for
  a map task succeed until \<open>N\<close> have been leased (so \<open>N\<close> successful calls empty the
  pool); and once \<open>N\<close> requests have been made, \<open>AssignMapTask\<close> returns the error
  "no more map tasks" at once (the model's function returns, it does not wait) and
  leaves the coordinator as it is.
\<close>

theorem C3_pool_exhaustion:
  assumes "NewMaster r = Inr m" and "NMap r = int N"
  shows "distinct (leased ReqMap (fst (serve rs m)))
    \<and> length (leased ReqMap (fst (serve rs m))) = min (count_list rs ReqMap) N
    \<and> (N \<le> count_list rs ReqMap \<longrightarrow>
         AssignMapTask (snd (serve rs m))
           = (Inl (Errorf ''no more map tasks''), snd (serve rs m)))"
proof -
  have q: "mapTasks m = [0..int N - 1]"
    using NewMaster_queues(1) [OF assms(1)] assms(2) by simp
  have d: "distinct (leased ReqMap (fst (serve rs m)))"
    by (simp add: leased_serve_map q)
  have l: "length (leased ReqMap (fst (serve rs m))) = min (count_list rs ReqMap) N"
    by (simp add: leased_serve_map q)
  have e: "AssignMapTask (snd (serve rs m))
             = (Inl (Errorf ''no more map tasks''), snd (serve rs m))"
    if "N \<le> count_list rs ReqMap"
  proof -
    from that have "mapTasks (snd (serve rs m)) = []"
      by (simp add: mapTasks_serve q)
    then show ?thesis by (simp add: AssignMapTask_def)
  qed
  from d l e show ?thesis by blast
qed

theorem C3_pool_exhaustion_witness:
  "NewMaster \<lparr>Files = [], NMap = 2, NReduce = 1\<rparr>
     = Inr \<lparr>mr = \<lparr>Files = [], NMap = 2, NReduce = 1\<rparr>, mapTasks = [0, 1],
            reduceTasks = [0], done_chan = \<lparr>sendq = [], recvq = []\<rparr>\<rparr>
   \<and> leased ReqMap (fst (serve [ReqMap, ReqReduce, ReqMap, ReqMap]
        \<lparr>mr = \<lparr>Files = [], NMap = 2, NReduce = 1\<rparr>, mapTasks = [0, 1],
         reduceTasks = [0], done_chan = \<lparr>sendq = [], recvq = []\<rparr>\<rparr>)) = [0, 1]
   \<and> AssignMapTask (snd (serve [ReqMap, ReqReduce, ReqMap, ReqMap]
        \<lparr>mr = \<lparr>Files = [], NMap = 2, NReduce = 1\<rparr>, mapTasks = [0, 1],
         reduceTasks = [0], done_chan = \<lparr>sendq = [], recvq = []\<rparr>\<rparr>))
       = (Inl (Errorf ''no more map tasks''),
          snd (serve [ReqMap, ReqReduce, ReqMap, ReqMap]
        \<lparr>mr = \<lparr>Files = [], NMap = 2, NReduce = 1\<rparr>, mapTasks = [0, 1],
         reduceTasks = [0], done_chan = \<lparr>sendq = [], recvq = []\<rparr>\<rparr>))"
proof -
  let ?r = "\<lparr>Files = [], NMap = 2, NReduce = 1\<rparr>"
  let ?m = "\<lparr>mr = ?r, mapTasks = [0, 1], reduceTasks = [0],
             done_chan = \<lparr>sendq = [], recvq = []\<rparr>\<rparr>"
  have n: "NewMaster ?r = Inr ?m"
    by (simp add: NewMaster_def sendAll.simps)
  have k: "NMap ?r = int 2" by simp
  have c: "2 \<le> count_list [ReqMap, ReqReduce, ReqMap, ReqMap] ReqMap" by simp
  have v: "leased ReqMap (fst (serve [ReqMap, ReqReduce, ReqMap, ReqMap] ?m)) = [0, 1]"
    by (simp add: AssignMapTask_def AssignReduceTask_def)
  from C3_pool_exhaustion [OF n k, of "[ReqMap, ReqReduce, ReqMap, ReqMap]"] c n v
  show ?thesis by blast
qed

text \<open>
  C10. From a fresh coordinator, whatever the sequence of lease requests, the
  \<open>k\<close>-th successful lease of a map task (counting from 0) returns the index \<open>k\<close>,
  that is, counting from 1, the \<open>k\<close>-th returns \<open>k - 1\<close>; the same holds for the
  leases of a reduce task.
\<close>

theorem C10_leases_ascending:
  assumes "NewMaster r = Inr m"
  shows "(\<forall>k < length (leased ReqMap (fst (serve rs m))).
            leased ReqMap (fst (serve rs m)) ! k = int k)
    \<and> (\<forall>k < length (leased ReqReduce (fst (serve rs m))).
            leased ReqReduce (fst (serve rs m)) ! k = int k)"
proof -
  have "leased ReqMap (fst (serve rs m)) ! k = int k"
    if "k < length (leased ReqMap (fst (serve rs m)))" for k
    using that by (simp add: leased_serve_map NewMaster_queues(1) [OF assms] upto0_nth)
  moreover have "leased ReqReduce (fst (serve rs m)) ! k = int k"
    if "k < length (leased ReqReduce (fst (serve rs m)))" for k
    using that by (simp add: leased_serve_reduce NewMaster_queues(2) [OF assms] upto0_nth)
  ultimately show ?thesis by blast
qed

theorem C10_leases_ascending_witness:
  "NewMaster \<lparr>Files = [], NMap = 3, NReduce = 2\<rparr>
     = Inr \<lparr>mr = \<lparr>Files = [], NMap = 3, NReduce = 2\<rparr>, mapTasks = [0, 1, 2],
            reduceTasks = [0, 1], done_chan = \<lparr>sendq = [], recvq = []\<rparr>\<rparr>
   \<and> leased ReqMap (fst (serve [ReqReduce, ReqMap, ReqMap, ReqReduce]
        \<lparr>mr = \<lparr>Files = [], NMap = 3, NReduce = 2\<rparr>, mapTasks = [0, 1, 2],
         reduceTasks = [0, 1], done_chan = \<lparr>sendq = [], recvq = []\<rparr>\<rparr>)) = [0, 1]
   \<and> (1::nat) < length (leased ReqMap (fst (serve [ReqReduce, ReqMap, ReqMap, ReqReduce]
        \<lparr>mr = \<lparr>Files = [], NMap = 3, NReduce = 2\<rparr>, mapTasks = [0, 1, 2],
         reduceTasks = [0, 1], done_chan = \<lparr>sendq = [], recvq = []\<rparr>\<rparr>)))
   \<and> leased ReqMap (fst (serve [ReqReduce, ReqMap, ReqMap, ReqReduce]
        \<lparr>mr = \<lparr>Files = [], NMap = 3, NReduce = 2\<rparr>, mapTasks = [0, 1, 2],
         reduceTasks = [0, 1], done_chan = \<lparr>sendq = [], recvq = []\<rparr>\<rparr>)) ! 1 = int 1
   \<and> leased ReqReduce (fst (serve [ReqReduce, ReqMap, ReqMap, ReqReduce]
        \<lparr>mr = \<lparr>Files = [], NMap = 3, NReduce = 2\<rparr>, mapTasks = [0, 1, 2],
         reduceTasks = [0, 1], done_chan = \<lparr>sendq = [], recvq = []\<rparr>\<rparr>)) ! 1 = int 1"
proof -
  let ?r = "\<lparr>Files = [], NMap = 3, NReduce = 2\<rparr>"
  let ?m = "\<lparr>mr = ?r, mapTasks = [0, 1, 2], reduceTasks = [0, 1],
             done_chan = \<lparr>sendq = [], recvq = []\<rparr>\<rparr>"
  let ?rs = "[ReqReduce, ReqMap, ReqMap, ReqReduce]"
  have n: "NewMaster ?r = Inr ?m"
    by (simp add: NewMaster_def sendAll.simps)
  have v: "leased ReqMap (fst (serve ?rs ?m)) = [0, 1]"
    by (simp add: AssignMapTask_def AssignReduceTask_def)
  have w: "leased ReqReduce (fst (serve ?rs ?m)) = [0, 1]"
    by (simp add: AssignMapTask_def AssignReduceTask_def)
  have lm: "(1::nat) < length (leased ReqMap (fst (serve ?rs ?m)))" by (subst v) simp
  have lr: "(1::nat) < length (leased ReqReduce (fst (serve ?rs ?m)))" by (subst w) simp
  from C10_leases_ascending [OF n, of ?rs] lm lr
  have "leased ReqMap (fst (serve ?rs ?m)) ! 1 = int 1"
    and "leased ReqReduce (fst (serve ?rs ?m)) ! 1 = int 1" by blast+
  with n v lm show ?thesis by blast
qed




section \<open>Files and count tables: lemmas\<close>

lemma mset_rangeOrder: "mset (rangeOrder seed xs) = mset xs"
proof (induction seed xs rule: rangeOrder.induct)
  case (1 ss)
  show ?case by simp
next
  case (2 x xs)
  show ?case by simp
next
  case (3 s ss x xs)
  let ?ys = "x # xs"
  let ?i = "s mod length ?ys"
  have i: "?i < length ?ys" by simp
  have "mset ?ys = mset (take ?i ?ys @ ?ys ! ?i # drop (Suc ?i) ?ys)"
    using id_take_nth_drop [OF i] by simp
  then have "mset ?ys = add_mset (?ys ! ?i) (mset (take ?i ?ys @ drop (Suc ?i) ?ys))"
    by simp
  with "3.IH" [of ?i] show ?case by (simp add: Let_def)
qed

lemma set_rangeOrder: "set (rangeOrder seed xs) = set xs"
  using mset_rangeOrder [of seed xs] by (metis set_mset_mset)

lemma distinct_rangeOrder: "distinct (map f (rangeOrder seed xs)) = distinct (map f xs)"
proof -
  have "mset (map f (rangeOrder seed xs)) = mset (map f xs)"
    by (simp add: mset_rangeOrder)
  then show ?thesis by (rule mset_eq_imp_distinct_iff)
qed

lemma contents_Fprint:
  "contents (Fprint fs name s) = (contents fs)(name \<mapsto> bytesOf fs name @ s)"
  by (simp add: Fprint_def)

lemma refused_Fprint: "refused (Fprint fs name s) = refused fs"
  by (simp add: Fprint_def)

lemma bytesOf_Fprint: "bytesOf (Fprint fs name s) name = bytesOf fs name @ s"
  by (simp add: bytesOf_def contents_Fprint)

lemma foldl_Fprint:
  "contents (foldl (\<lambda>f e. Fprint f name (g e)) fs es) name
     = (if es = [] then contents fs name else Some (bytesOf fs name @ concat (map g es)))
   \<and> (\<forall>n. n \<noteq> name \<longrightarrow> contents (foldl (\<lambda>f e. Fprint f name (g e)) fs es) n = contents fs n)
   \<and> refused (foldl (\<lambda>f e. Fprint f name (g e)) fs es) = refused fs"
proof (induction es arbitrary: fs)
  case Nil
  show ?case by simp
next
  case (Cons e es)
  show ?case
    using Cons.IH [of "Fprint fs name (g e)"]
    by (simp add: contents_Fprint refused_Fprint bytesOf_Fprint)
qed

text \<open>The bytes of the lines \<open>writeCounts\<close> prints for a list of entries.\<close>

lemma writeCounts_contents:
  assumes "contents fs name = Some x"
  shows "contents (writeCounts fs name seed m)
           = (contents fs)(name \<mapsto>
                x @ concat (map (\<lambda>e. countLine e @ [CHR 0x0A]) (rangeOrder seed m)))"
proof (rule ext)
  fix n
  let ?g = "\<lambda>e. countLine e @ [CHR 0x0A]"
  note f = foldl_Fprint [of name ?g fs "rangeOrder seed m"]
  show "contents (writeCounts fs name seed m) n
          = ((contents fs)(name \<mapsto> x @ concat (map ?g (rangeOrder seed m)))) n"
  proof (cases "n = name")
    case True
    with f assms show ?thesis by (simp add: writeCounts_def bytesOf_def)
  next
    case False
    with f show ?thesis by (simp add: writeCounts_def)
  qed
qed

lemma os_Create_Inr:
  assumes "os_Create fs name = Inr fs1"
  shows "contents fs1 = (contents fs)(name \<mapsto> [])" and "refused fs1 = refused fs"
    and "name \<notin> refused fs"
  using assms by (auto simp: os_Create_def split: if_splits)


text \<open>An \<open>int\<close> in the range of 64 bits is not changed by \<open>wrap64\<close>, and wrapping an
  intermediate sum does not change the wrapped sum.\<close>

lemma wrap64_id:
  "- 9223372036854775808 \<le> i \<Longrightarrow> i < 9223372036854775808 \<Longrightarrow> wrap64 i = i"
  by (simp add: wrap64_def)

lemma wrap64_add: "wrap64 (wrap64 a + b) = wrap64 (a + b)"
proof -
  have "((a + 9223372036854775808) mod 18446744073709551616 + b) mod 18446744073709551616
          = (a + 9223372036854775808 + b) mod 18446744073709551616"
    by (rule mod_add_left_eq)
  moreover have "wrap64 a + b + 9223372036854775808
          = (a + 9223372036854775808) mod 18446744073709551616 + b"
    by (simp add: wrap64_def)
  moreover have "a + b + 9223372036854775808 = a + 9223372036854775808 + b" by simp
  ultimately show ?thesis unfolding wrap64_def [of "wrap64 a + b"] wrap64_def [of "a + b"]
    by (simp only:)
qed

lemma wrap64_idem: "wrap64 (wrap64 a) = wrap64 a"
  using wrap64_add [of a 0] by simp

lemma keys_addCount: "fst ` set (addCount k c m) = insert k (fst ` set m)"
proof (induction m)
  case Nil
  show ?case by simp
next
  case (Cons e m)
  obtain k' v where e: "e = (k', v)" by (cases e)
  show ?case by (cases "k = k'") (simp_all add: e Cons.IH insert_commute)
qed

lemma distinct_addCount:
  "distinct (map fst m) \<Longrightarrow> distinct (map fst (addCount k c m))"
proof (induction m)
  case Nil
  show ?case by simp
next
  case (Cons e m)
  obtain k' v where e: "e = (k', v)" by (cases e)
  show ?case
  proof (cases "k = k'")
    case True
    with Cons.prems show ?thesis by (simp add: e)
  next
    case False
    have "k' \<notin> set (map fst (addCount k c m))"
      using Cons.prems False by (simp add: keys_addCount e)
    with Cons False show ?thesis by (simp add: e)
  qed
qed

lemma distinct_readCounts:
  "distinct (map fst m) \<Longrightarrow> distinct (map fst (readCounts ls m))"
  by (induction ls arbitrary: m) (simp_all add: distinct_addCount)

lemma keys_readCounts:
  "fst ` set (readCounts ls m) = fst ` set m \<union> (\<lambda>l. fst (Sscanf l)) ` set ls"
proof (induction ls arbitrary: m)
  case Nil
  show ?case by simp
next
  case (Cons l ls)
  show ?case by (simp add: Cons.IH keys_addCount Un_commute insert_commute)
qed

section \<open>No key of a table read by the reduce task holds a newline\<close>

lemma char_of_eq_NL: "char_of (b::int) = CHR 0x0A \<Longrightarrow> b mod 256 = 10"
  by (simp add: char_of_eq_iff take_bit_eq_mod)

lemma encodeRune_bytes:
  "b \<in> set (encodeRune r) \<Longrightarrow> (0 \<le> r \<and> r \<le> 0x7F \<and> b = r) \<or> (0x80 \<le> b \<and> b \<le> 0xFF)"
  by (auto simp: encodeRune_def split: if_splits)

lemma encodeRune_no_NL:
  assumes "\<not> isSpace r"
  shows "CHR 0x0A \<notin> set (map char_of (encodeRune r))"
proof
  assume "CHR 0x0A \<in> set (map char_of (encodeRune r))"
  then obtain b where b: "b \<in> set (encodeRune r)" and c: "char_of b = CHR 0x0A" by auto
  from char_of_eq_NL [OF c] have m: "b mod 256 = 10" .
  from encodeRune_bytes [OF b] show False
  proof
    assume "0 \<le> r \<and> r \<le> 0x7F \<and> b = r"
    with m have "r = 10" by simp
    with assms show False by (simp add: isSpace_def)
  next
    assume "0x80 \<le> b \<and> b \<le> 0xFF"
    with m show False by simp
  qed
qed

lemma token_no_NL:
  "CHR 0x0A \<notin> set buf \<Longrightarrow> CHR 0x0A \<notin> set (fst (token buf s))"
proof (induction buf s rule: token.induct)
  case (1 buf)
  then show ?case by simp
next
  case (2 buf c s)
  show ?case
  proof (cases "isSpace (fst (DecodeRune (c # s)))")
    case True
    with "2.prems" show ?thesis by (simp add: token.simps(2))
  next
    case False
    have "CHR 0x0A \<notin> set (AppendRune buf (fst (DecodeRune (c # s))))"
      using "2.prems" encodeRune_no_NL [OF False] by (simp add: AppendRune_def)
    from "2.IH" [OF False this] False show ?thesis by (simp add: token.simps(2))
  qed
qed



lemma digitChar_no_NL: "d < 10 \<Longrightarrow> digitChar d \<noteq> CHR 0x0A"
proof
  assume d: "d < 10" and "digitChar d = CHR 0x0A"
  then have "char_of (48 + int d) = CHR 0x0A" by (simp add: digitChar_def)
  from char_of_eq_NL [OF this] d show False by simp
qed

lemma digitsOf_no_NL: "CHR 0x0A \<notin> set (digitsOf n)"
proof (induction n rule: digitsOf.induct)
  case (1 n)
  show ?case
  proof (cases "n < 10")
    case True
    then show ?thesis
      using digitChar_no_NL [of n] by (auto simp: digitsOf.simps [of n])
  next
    case False
    have "n mod 10 < 10" by simp
    with False "1.IH" show ?thesis
      using digitChar_no_NL [of "n mod 10"] by (auto simp: digitsOf.simps [of n])
  qed
qed

lemma itoa_no_NL: "CHR 0x0A \<notin> set (itoa i)"
  by (simp add: itoa_def digitsOf_no_NL)

lemma countLine_no_NL: "CHR 0x0A \<notin> set (fst e) \<Longrightarrow> CHR 0x0A \<notin> set (countLine e)"
  by (simp add: countLine_def itoa_no_NL)


section \<open>The reduce task: properties\<close>

text \<open>What the tables of the reduce task keep true from round to round: no key
  twice, no newline in a key.\<close>

lemma reduceStep_tables:
  assumes "reduceStep i r fs acc = Inr (Inr acc')"
  shows "\<exists>ls ls'. acc' = (readCounts ls (fst acc), readCounts ls' (snd acc))"
  using assms unfolding reduceStep_def
  by (simp split: sum.split_asm option.split_asm) blast

lemma reduceLoop_invariant:
  assumes "reduceLoop i r fs acc = Inr (Inr acc')"
    and "P acc"
    and "\<And>a ls ls'. P a \<Longrightarrow> P (readCounts ls (fst a), readCounts ls' (snd a))"
  shows "P acc'"
  using assms(1,2)
proof (induction i r fs acc rule: reduceLoop.induct)
  case (1 i r fs acc)
  show ?case
  proof (cases "i < NMap r")
    case False
    with "1.prems" show ?thesis by (simp add: reduceLoop.simps [of i r fs acc])
  next
    case True
    with "1.prems"(1) obtain a where s: "reduceStep i r fs acc = Inr (Inr a)"
      and l: "reduceLoop (i + 1) r fs a = Inr (Inr acc')"
      by (auto simp: reduceLoop.simps [of i r fs acc] split: sum.splits)
    from reduceStep_tables [OF s] assms(3) [OF "1.prems"(2)] have "P a" by auto
    from "1.IH" [OF True s refl l this] show ?thesis .
  qed
qed

lemma reduceLoop_distinct:
  assumes "reduceLoop 0 r fs ([], []) = Inr (Inr acc)"
  shows "distinct (map fst (fst acc)) \<and> distinct (map fst (snd acc))"
  by (rule reduceLoop_invariant
        [OF assms, where P = "\<lambda>a. distinct (map fst (fst a)) \<and> distinct (map fst (snd a))"])
     (simp_all add: distinct_readCounts)



text \<open>The bytes of the report.\<close>

lemma ReduceTask_report:
  assumes "ReduceTask task r fs sd st = Inr (None, fs')"
  shows "\<exists>acc. reduceLoop 0 r fs ([], []) = Inr (Inr acc)
    \<and> contents fs' = (contents fs)(reportName \<mapsto>
        ''Diagnosis Counts:'' @ [CHR 0x0A]
        @ concat (map (\<lambda>e. countLine e @ [CHR 0x0A]) (rangeOrder sd (fst acc)))
        @ ''Treatment Counts:'' @ [CHR 0x0A]
        @ concat (map (\<lambda>e. countLine e @ [CHR 0x0A]) (rangeOrder st (snd acc))))"
proof -
  from assms obtain acc fs1 where l: "reduceLoop 0 r fs ([], []) = Inr (Inr acc)"
    and c: "os_Create fs reportName = Inr fs1"
    and f: "fs' = writeCounts
                    (Fprint (writeCounts (Fprint fs1 reportName (''Diagnosis Counts:'' @ [CHR 0x0A]))
                               reportName sd (fst acc))
                       reportName (''Treatment Counts:'' @ [CHR 0x0A]))
                    reportName st (snd acc)"
    by (auto simp: ReduceTask_def Let_def split: sum.splits)
  let ?h1 = "''Diagnosis Counts:'' @ [CHR 0x0A]"
  let ?h2 = "''Treatment Counts:'' @ [CHR 0x0A]"
  let ?b1 = "concat (map (\<lambda>e. countLine e @ [CHR 0x0A]) (rangeOrder sd (fst acc)))"
  let ?b2 = "concat (map (\<lambda>e. countLine e @ [CHR 0x0A]) (rangeOrder st (snd acc)))"
  let ?fs2 = "Fprint fs1 reportName ?h1"
  let ?fs3 = "writeCounts ?fs2 reportName sd (fst acc)"
  let ?fs4 = "Fprint ?fs3 reportName ?h2"
  have c1: "contents fs1 = (contents fs)(reportName \<mapsto> [])"
    by (rule os_Create_Inr(1) [OF c])
  have c2: "contents ?fs2 = (contents fs)(reportName \<mapsto> ?h1)"
    by (simp only: contents_Fprint c1 bytesOf_def fun_upd_same fun_upd_upd option.case
          append_Nil)
  have n2: "contents ?fs2 reportName = Some ?h1"
    by (simp only: c2 fun_upd_same)
  have c3: "contents ?fs3 = (contents fs)(reportName \<mapsto> ?h1 @ ?b1)"
    by (simp only: writeCounts_contents [OF n2] c2 fun_upd_upd)
  have c4: "contents ?fs4 = (contents fs)(reportName \<mapsto> (?h1 @ ?b1) @ ?h2)"
    by (simp only: contents_Fprint c3 bytesOf_def fun_upd_same fun_upd_upd option.case)
  have n4: "contents ?fs4 reportName = Some ((?h1 @ ?b1) @ ?h2)"
    by (simp only: c4 fun_upd_same)
  have c5: "contents fs' = (contents fs)(reportName \<mapsto> ((?h1 @ ?b1) @ ?h2) @ ?b2)"
    unfolding f by (simp only: writeCounts_contents [OF n4] c4 fun_upd_upd)
  have "((?h1 @ ?b1) @ ?h2) @ ?b2 = ?h1 @ ?b1 @ ?h2 @ ?b2"
    by (simp only: append_assoc)
  with c5 have c6: "contents fs' = (contents fs)(reportName \<mapsto> ?h1 @ ?b1 @ ?h2 @ ?b2)"
    by (simp only:)
  from l c6 show ?thesis by (simp only: append_assoc) blast
qed






section \<open>The map phase: properties\<close>


lemma writeCounts_other:
  "n \<noteq> name \<Longrightarrow> contents (writeCounts fs name seed m) n = contents fs n"
  using foldl_Fprint [of name "\<lambda>e. countLine e @ [CHR 0x0A]" fs "rangeOrder seed m"]
  by (simp add: writeCounts_def)

lemma os_Create_other:
  "os_Create fs name = Inr fs1 \<Longrightarrow> n \<noteq> name \<Longrightarrow> contents fs1 n = contents fs n"
  by (simp add: os_Create_Inr(1))







section \<open>Runes: lemmas\<close>

lemma byte_range: "0 \<le> byte c" "byte c < 256"
proof -
  have "byte c mod 256 = byte c" by (simp add: byte_def)
  then show "0 \<le> byte c" "byte c < 256"
    by (metis pos_mod_sign zero_less_numeral, metis pos_mod_bound zero_less_numeral)
qed

lemma char_of_byte: "char_of (byte c) = c"
  by (simp add: byte_def)

lemma seqLen_cases: "seqLen p = 0 \<or> seqLen p = 1 \<or> seqLen p = 2 \<or> seqLen p = 3 \<or> seqLen p = 4"
  by (simp add: seqLen_def)

text \<open>The width of a rune: at least one byte, and no more than there are.\<close>

lemma DecodeRune_width:
  "1 \<le> snd (DecodeRune (c # s))" "snd (DecodeRune (c # s)) \<le> Suc (length s)"
  using seqLen_cases [of "byte c"]
  by (auto simp: DecodeRune.simps Let_def)

text \<open>A rune that decodes without error depends on its own bytes only.\<close>

lemma DecodeRune_prefix:
  assumes "DecodeRune (c # s) \<noteq> (RuneError, 1)"
  shows "DecodeRune (take (snd (DecodeRune (c # s))) (c # s) @ t) = DecodeRune (c # s)"
proof -
  consider "seqLen (byte c) = 0" | "seqLen (byte c) = 1" | "seqLen (byte c) = 2"
    | "seqLen (byte c) = 3" | "seqLen (byte c) = 4"
    using seqLen_cases [of "byte c"] by auto
  then show ?thesis
  proof cases
    case 1
    with assms show ?thesis by (simp add: DecodeRune.simps Let_def)
  next
    case 2
    then show ?thesis by (simp add: DecodeRune.simps Let_def)
  next
    case 3
    with assms have "\<not> Suc (length s) < 2"
      by (auto simp: DecodeRune.simps Let_def split: if_splits)
    then have "Suc 0 \<le> length s" by arith
    then obtain b1 s' where s: "s = b1 # s'"
      by (auto simp: Suc_le_length_iff)
    from assms 3 show ?thesis
      by (auto simp: DecodeRune.simps Let_def s split: if_splits)
  next
    case 4
    with assms have "\<not> Suc (length s) < 3"
      by (auto simp: DecodeRune.simps Let_def split: if_splits)
    then have "Suc (Suc 0) \<le> length s" by arith
    then obtain b1 b2 s' where s: "s = b1 # b2 # s'"
      by (auto simp: Suc_le_length_iff)
    from assms 4 show ?thesis
      by (auto simp: DecodeRune.simps Let_def s split: if_splits)
  next
    case 5
    with assms have "\<not> Suc (length s) < 4"
      by (auto simp: DecodeRune.simps Let_def split: if_splits)
    then have "Suc (Suc (Suc 0)) \<le> length s" by arith
    then obtain b1 b2 b3 s' where s: "s = b1 # b2 # b3 # s'"
      by (auto simp: Suc_le_length_iff)
    from assms 5 show ?thesis
      by (auto simp: DecodeRune.simps Let_def s split: if_splits)
  qed
qed

text \<open>The bytes \<open>AppendRune\<close> writes for a rune decoded without error are the bytes it
  was decoded from.\<close>

lemma mod_shift:
  fixes x :: int
  assumes "0 \<le> x" "x < m" "k = m * q"
  shows "(k + x) mod m = x"
proof -
  have "(m * q + x) mod m = x mod m" by (rule mod_mult_self4)
  also have "\<dots> = x" using assms(1,2) by simp
  finally show ?thesis by (simp add: assms(3))
qed

lemma div_mod_digit:
  fixes a z m :: int
  assumes "0 \<le> z" "z < m"
  shows "(a * m + z) div m = a" and "(a * m + z) mod m = z"
  using assms by simp_all

lemma split3:
  fixes x y z :: int
  assumes "0 \<le> y" "y < 64" "0 \<le> z" "z < 64"
  shows "(x * 4096 + y * 64 + z) div 4096 = x"
    and "((x * 4096 + y * 64 + z) div 64) mod 64 = y"
    and "(x * 4096 + y * 64 + z) mod 64 = z"
proof -
  have e: "x * 4096 + y * 64 + z = (x * 64 + y) * 64 + z" by simp
  have f: "x * 4096 + y * 64 + z = x * 4096 + (y * 64 + z)" by simp
  have "0 \<le> y * 64 + z" "y * 64 + z < 4096" using assms by simp_all
  from div_mod_digit(1) [OF this, of x]
  show "(x * 4096 + y * 64 + z) div 4096 = x" by (simp only: f)
  have "(x * 4096 + y * 64 + z) div 64 = x * 64 + y"
    by (simp only: e) (rule div_mod_digit(1) [OF assms(3,4)])
  then show "((x * 4096 + y * 64 + z) div 64) mod 64 = y"
    using div_mod_digit(2) [OF assms(1,2), of x] by (simp only:)
  show "(x * 4096 + y * 64 + z) mod 64 = z"
    by (simp only: e) (rule div_mod_digit(2) [OF assms(3,4)])
qed

lemma split4:
  fixes w x y z :: int
  assumes "0 \<le> x" "x < 64" "0 \<le> y" "y < 64" "0 \<le> z" "z < 64"
  shows "(w * 262144 + x * 4096 + y * 64 + z) div 262144 = w"
    and "((w * 262144 + x * 4096 + y * 64 + z) div 4096) mod 64 = x"
    and "((w * 262144 + x * 4096 + y * 64 + z) div 64) mod 64 = y"
    and "(w * 262144 + x * 4096 + y * 64 + z) mod 64 = z"
proof -
  let ?r = "w * 262144 + x * 4096 + y * 64 + z"
  have e: "?r = (w * 64 + x) * 4096 + y * 64 + z" by simp
  have f: "?r = w * 262144 + (x * 4096 + y * 64 + z)" by simp
  note t = split3 [OF assms(3-6), of "w * 64 + x"]
  have "0 \<le> x * 4096 + y * 64 + z" "x * 4096 + y * 64 + z < 262144" using assms by simp_all
  from div_mod_digit(1) [OF this, of w]
  show "?r div 262144 = w" by (simp only: f)
  have "?r div 4096 = w * 64 + x" using t(1) by (simp only: e)
  then show "(?r div 4096) mod 64 = x"
    using div_mod_digit(2) [OF assms(1,2), of w] by (simp only:)
  show "(?r div 64) mod 64 = y" using t(2) by (simp only: e)
  show "?r mod 64 = z" using t(3) by (simp only: e)
qed

lemma encode2:
  fixes p b :: int
  assumes "0xC2 \<le> p" "p \<le> 0xDF" "0x80 \<le> b" "b \<le> 0xBF"
  shows "encodeRune ((p mod 32) * 64 + b mod 64) = [p, b]"
proof -
  define x y where "x = p - 192" and "y = b - 128"
  have x: "p = 192 + x" "2 \<le> x" "x < 32" and y: "b = 128 + y" "0 \<le> y" "y < 64"
    using assms by (simp_all add: x_def y_def)
  have m: "p mod 32 = x" "b mod 64 = y"
    unfolding x(1) y(1) using x y by (simp_all add: mod_shift [where q = 6] mod_shift [where q = 2])
  note d = div_mod_digit [OF y(2,3), of x]
  have r: "128 \<le> x * 64 + y" "x * 64 + y \<le> 2047" using x y by simp_all
  have "encodeRune (x * 64 + y) = [192 + x, 128 + y]"
    using r y by (auto simp: encodeRune_def d)
  then show ?thesis unfolding m by (simp add: x(1) y(1))
qed

lemma encode3:
  fixes p b1 b2 :: int
  assumes "0xE0 \<le> p" "p \<le> 0xEF" "fst (acceptRange p) \<le> b1" "b1 \<le> snd (acceptRange p)"
    "0x80 \<le> b2" "b2 \<le> 0xBF"
  shows "encodeRune ((p mod 16) * 4096 + (b1 mod 64) * 64 + b2 mod 64) = [p, b1, b2]"
proof -
  define x y z where "x = p - 224" and "y = b1 - 128" and "z = b2 - 128"
  have a: "0x80 \<le> b1" "b1 \<le> 0xBF" "p = 0xE0 \<longrightarrow> 0xA0 \<le> b1" "p = 0xED \<longrightarrow> b1 \<le> 0x9F"
    using assms(1-4) by (auto simp: acceptRange_def split: if_splits)
  have x: "p = 224 + x" "0 \<le> x" "x < 16" and y: "b1 = 128 + y" "0 \<le> y" "y < 64"
    and z: "b2 = 128 + z" "0 \<le> z" "z < 64"
    using assms a by (simp_all add: x_def y_def z_def)
  have s: "x = 0 \<longrightarrow> 32 \<le> y" "x = 13 \<longrightarrow> y \<le> 31"
    using a(3,4) by (simp_all add: x_def y_def)
  have m: "p mod 16 = x" "b1 mod 64 = y" "b2 mod 64 = z"
    unfolding x(1) y(1) z(1) using x y z
    by (simp_all add: mod_shift [where q = 14] mod_shift [where q = 2])
  let ?r = "x * 4096 + y * 64 + z"
  note d = split3 [OF y(2,3) z(2,3), of x]
  have lo: "2048 \<le> ?r"
  proof (cases "x = 0")
    case True
    with s y z show ?thesis by simp
  next
    case False
    with x have "1 \<le> x" by simp
    then have "4096 \<le> x * 4096" by simp
    with y z show ?thesis by simp
  qed
  have hi: "?r \<le> 65535"
  proof -
    from x have "x * 4096 \<le> 15 * 4096" by simp
    with y z show ?thesis by simp
  qed
  have sur: "\<not> (55296 \<le> ?r \<and> ?r \<le> 57343)"
  proof (cases "x \<le> 12")
    case True
    then have "x * 4096 \<le> 12 * 4096" by simp
    with y z show ?thesis by simp
  next
    case False
    show ?thesis
    proof (cases "x = 13")
      case True
      with s y z show ?thesis by simp
    next
      case False
      with \<open>\<not> x \<le> 12\<close> have "14 \<le> x" by simp
      then have "14 * 4096 \<le> x * 4096" by simp
      with y z show ?thesis by simp
    qed
  qed
  have "encodeRune ?r = [224 + x, 128 + y, 128 + z]"
    using lo hi sur by (auto simp: encodeRune_def d)
  then show ?thesis unfolding m by (simp add: x(1) y(1) z(1))
qed

lemma encode4:
  fixes p b1 b2 b3 :: int
  assumes "0xF0 \<le> p" "p \<le> 0xF4" "fst (acceptRange p) \<le> b1" "b1 \<le> snd (acceptRange p)"
    "0x80 \<le> b2" "b2 \<le> 0xBF" "0x80 \<le> b3" "b3 \<le> 0xBF"
  shows "encodeRune ((p mod 8) * 262144 + (b1 mod 64) * 4096 + (b2 mod 64) * 64 + b3 mod 64)
           = [p, b1, b2, b3]"
proof -
  define w x y z where "w = p - 240" and "x = b1 - 128" and "y = b2 - 128" and "z = b3 - 128"
  have a: "0x80 \<le> b1" "b1 \<le> 0xBF" "p = 0xF0 \<longrightarrow> 0x90 \<le> b1" "p = 0xF4 \<longrightarrow> b1 \<le> 0x8F"
    using assms(1-4) by (auto simp: acceptRange_def split: if_splits)
  have w: "p = 240 + w" "0 \<le> w" "w \<le> 4" and x: "b1 = 128 + x" "0 \<le> x" "x < 64"
    and y: "b2 = 128 + y" "0 \<le> y" "y < 64" and z: "b3 = 128 + z" "0 \<le> z" "z < 64"
    using assms a by (simp_all add: w_def x_def y_def z_def)
  have s: "w = 0 \<longrightarrow> 16 \<le> x" "w = 4 \<longrightarrow> x \<le> 15"
    using a(3,4) by (simp_all add: w_def x_def)
  have m: "p mod 8 = w" "b1 mod 64 = x" "b2 mod 64 = y" "b3 mod 64 = z"
    unfolding w(1) x(1) y(1) z(1) using w x y z
    by (simp_all add: mod_shift [where q = 30] mod_shift [where q = 2])
  let ?r = "w * 262144 + x * 4096 + y * 64 + z"
  note d = split4 [OF x(2,3) y(2,3) z(2,3), of w]
  have lo: "65536 \<le> ?r"
  proof (cases "w = 0")
    case True
    with s have "16 * 4096 \<le> x * 4096" by simp
    with True y z show ?thesis by simp
  next
    case False
    with w have "1 \<le> w" by simp
    then have "262144 \<le> w * 262144" by simp
    with x y z show ?thesis by simp
  qed
  have hi: "?r \<le> 1114111"
  proof (cases "w = 4")
    case True
    with s have "x * 4096 \<le> 15 * 4096" by simp
    with True y z show ?thesis by simp
  next
    case False
    with w have "w \<le> 3" by simp
    then have "w * 262144 \<le> 3 * 262144" by simp
    moreover from x have "x * 4096 \<le> 63 * 4096" by simp
    ultimately show ?thesis using y z by simp
  qed
  have "encodeRune ?r = [240 + w, 128 + x, 128 + y, 128 + z]"
    using lo hi by (auto simp: encodeRune_def d)
  then show ?thesis unfolding m by (simp add: w(1) x(1) y(1) z(1))
qed

lemma seqLen_range:
  "seqLen p = 1 \<Longrightarrow> p < 0x80"
  "seqLen p = 2 \<Longrightarrow> 0xC2 \<le> p \<and> p \<le> 0xDF"
  "seqLen p = 3 \<Longrightarrow> 0xE0 \<le> p \<and> p \<le> 0xEF"
  "seqLen p = 4 \<Longrightarrow> 0xF0 \<le> p \<and> p \<le> 0xF4"
  by (auto simp: seqLen_def split: if_splits)

lemma encode_decode:
  assumes "DecodeRune (c # s) \<noteq> (RuneError, 1)"
  shows "map char_of (encodeRune (fst (DecodeRune (c # s))))
           = take (snd (DecodeRune (c # s))) (c # s)"
proof -
  consider "seqLen (byte c) = 0" | "seqLen (byte c) = 1" | "seqLen (byte c) = 2"
    | "seqLen (byte c) = 3" | "seqLen (byte c) = 4"
    using seqLen_cases [of "byte c"] by auto
  then show ?thesis
  proof cases
    case 1
    with assms show ?thesis by (simp add: DecodeRune.simps Let_def)
  next
    case 2
    from seqLen_range(1) [OF 2] byte_range(1) [of c]
    have "encodeRune (byte c) = [byte c]" by (simp add: encodeRune_def)
    with 2 show ?thesis by (simp add: DecodeRune.simps Let_def char_of_byte)
  next
    case 3
    with assms have "\<not> Suc (length s) < 2"
      by (auto simp: DecodeRune.simps Let_def split: if_splits)
    then have "Suc 0 \<le> length s" by arith
    then obtain b1 s' where s: "s = b1 # s'"
      by (auto simp: Suc_le_length_iff)
    note p = seqLen_range(2) [OF 3]
    then have ar: "acceptRange (byte c) = (0x80, 0xBF)" by (simp add: acceptRange_def)
    from assms 3 have b: "0x80 \<le> byte b1" "byte b1 \<le> 0xBF"
      by (auto simp: DecodeRune.simps Let_def s ar split: if_splits)
    from b have d: "DecodeRune (c # s) = ((byte c mod 32) * 64 + byte b1 mod 64, 2)"
      using 3 by (simp add: DecodeRune.simps Let_def s ar)
    from encode2 [of "byte c" "byte b1"] p b show ?thesis
      by (simp only: d) (simp add: s char_of_byte)
  next
    case 4
    with assms have "\<not> Suc (length s) < 3"
      by (auto simp: DecodeRune.simps Let_def split: if_splits)
    then have "Suc (Suc 0) \<le> length s" by arith
    then obtain b1 b2 s' where s: "s = b1 # b2 # s'"
      by (auto simp: Suc_le_length_iff)
    note p = seqLen_range(3) [OF 4]
    from assms 4 have b: "fst (acceptRange (byte c)) \<le> byte b1"
      "byte b1 \<le> snd (acceptRange (byte c))" "0x80 \<le> byte b2" "byte b2 \<le> 0xBF"
      by (auto simp: DecodeRune.simps Let_def s isCont_def split: if_splits)
    from b have d: "DecodeRune (c # s)
        = ((byte c mod 16) * 4096 + (byte b1 mod 64) * 64 + byte b2 mod 64, 3)"
      using 4 by (simp add: DecodeRune.simps Let_def s isCont_def)
    from encode3 [of "byte c" "byte b1" "byte b2"] p b show ?thesis
      by (simp only: d) (simp add: s char_of_byte)
  next
    case 5
    with assms have "\<not> Suc (length s) < 4"
      by (auto simp: DecodeRune.simps Let_def split: if_splits)
    then have "Suc (Suc (Suc 0)) \<le> length s" by arith
    then obtain b1 b2 b3 s' where s: "s = b1 # b2 # b3 # s'"
      by (auto simp: Suc_le_length_iff)
    note p = seqLen_range(4) [OF 5]
    from assms 5 have b: "fst (acceptRange (byte c)) \<le> byte b1"
      "byte b1 \<le> snd (acceptRange (byte c))" "0x80 \<le> byte b2" "byte b2 \<le> 0xBF"
      "0x80 \<le> byte b3" "byte b3 \<le> 0xBF"
      by (auto simp: DecodeRune.simps Let_def s isCont_def split: if_splits)
    from b have d: "DecodeRune (c # s)
        = ((byte c mod 8) * 262144 + (byte b1 mod 64) * 4096 + (byte b2 mod 64) * 64
             + byte b3 mod 64, 4)"
      using 5 by (simp add: DecodeRune.simps Let_def s isCont_def)
    from encode4 [of "byte c" "byte b1" "byte b2" "byte b3"] p b show ?thesis
      by (simp only: d) (simp add: s char_of_byte)
  qed
qed

lemma DecodeRune_append:
  assumes "DecodeRune (c # a) \<noteq> (RuneError, 1)"
  shows "DecodeRune (c # a @ b) = DecodeRune (c # a)"
proof -
  let ?w = "snd (DecodeRune (c # a))"
  have "take ?w (c # a) @ (drop ?w (c # a) @ b) = c # a @ b"
    by (simp only: append_assoc [symmetric] append_take_drop_id) simp
  with DecodeRune_prefix [OF assms, of "drop ?w (c # a) @ b"] show ?thesis by simp
qed

lemma width_beyond: "snd (DecodeRune (c # a)) - Suc (length a) = 0"
  using DecodeRune_width(2) [of c a] by simp

text \<open>Scanning a token that is valid UTF-8 and free of white space, up to the white
  space or the end that follows it, gives the token back.\<close>

lemma token_plain:
  assumes "validUTF8 k" "noSpace k" "rest = [] \<or> isSpace (fst (DecodeRune rest))"
  shows "token buf (k @ rest) = (buf @ k, rest)"
  using assms(1,2)
proof (induction k arbitrary: buf rule: validUTF8.induct)
  case 1
  from assms(3) show ?case by (cases rest) (simp_all add: token.simps(2))
next
  case (2 c k)
  let ?w = "snd (DecodeRune (c # k))"
  from "2.prems" have v: "DecodeRune (c # k) \<noteq> (RuneError, 1)"
    and r: "validUTF8 (drop (?w - 1) k)"
    and n: "\<not> isSpace (fst (DecodeRune (c # k)))" "noSpace (drop (?w - 1) k)"
    by (simp_all add: validUTF8.simps(2) noSpace.simps(2))
  have a: "AppendRune buf (fst (DecodeRune (c # k))) = buf @ take ?w (c # k)"
    by (simp add: AppendRune_def encode_decode [OF v])
  have "token buf ((c # k) @ rest)
          = token (buf @ take ?w (c # k)) (drop (?w - 1) k @ rest)"
    using n(1) by (simp add: token.simps(2) DecodeRune_append [OF v] width_beyond a)
  also have "\<dots> = ((buf @ take ?w (c # k)) @ drop (?w - 1) k, rest)"
    by (rule "2.IH" [OF r n(2)])
  also have "(buf @ take ?w (c # k)) @ drop (?w - 1) k = buf @ c # k"
    using DecodeRune_width(1) [of c k] by (cases ?w) simp_all
  finally show ?case .
qed

section \<open>Printing a count and scanning it back\<close>

lemma byte_values:
  "byte (CHR 0x0A) = 10" "byte (CHR '' '') = 32" "byte (CHR ''0'') = 48"
  "byte (CHR ''_'') = 95" "byte (CHR ''+'') = 43" "byte (CHR ''-'') = 45"
  "byte (CHR 0x0D) = 13"
  by (simp_all add: byte_def)

lemma byte_digitChar: "d < 10 \<Longrightarrow> byte (digitChar d) = 48 + int d"
  by (simp add: byte_def digitChar_def)

lemma byte_inj: "byte a = byte b \<Longrightarrow> a = b"
  by (simp add: byte_def)

lemma DecodeRune_ascii: "byte c < 0x80 \<Longrightarrow> DecodeRune (c # s) = (byte c, 1)"
  by (simp add: DecodeRune.simps Let_def seqLen_def)

lemma isDigit_digitChar: "d < 10 \<Longrightarrow> isDigit (digitChar d)"
  by (simp add: isDigit_def byte_digitChar)

lemma isDigit_in_decimal: "isDigit c \<Longrightarrow> c \<in> set ''0123456789_''"
proof -
  assume "isDigit c"
  then have "byte c = 48 \<or> byte c = 49 \<or> byte c = 50 \<or> byte c = 51 \<or> byte c = 52
    \<or> byte c = 53 \<or> byte c = 54 \<or> byte c = 55 \<or> byte c = 56 \<or> byte c = 57"
    by (simp add: isDigit_def) arith
  then have "c = CHR ''0'' \<or> c = CHR ''1'' \<or> c = CHR ''2'' \<or> c = CHR ''3'' \<or> c = CHR ''4''
    \<or> c = CHR ''5'' \<or> c = CHR ''6'' \<or> c = CHR ''7'' \<or> c = CHR ''8'' \<or> c = CHR ''9''"
    by (elim disjE) (auto intro!: byte_inj simp: byte_def)
  then show ?thesis by auto
qed

lemma isDigit_facts:
  assumes "isDigit c"
  shows "c \<noteq> CHR 0x0A" "c \<noteq> CHR ''_''" "c \<noteq> CHR ''+''" "c \<noteq> CHR ''-''" "c \<noteq> CHR 0x0D"
    "digitVal c = Some (byte c - 48)" "DecodeRune (c # s) = (byte c, 1)"
    "\<not> isSpace (byte c)"
  using assms
  by (auto simp: isDigit_def byte_values digitVal_def Let_def DecodeRune_ascii isSpace_def)

lemma digitsOf_digits: "\<forall>c \<in> set (digitsOf n). isDigit c"
proof (induction n rule: digitsOf.induct)
  case (1 n)
  show ?case
  proof (cases "n < 10")
    case True
    then show ?thesis by (simp add: digitsOf.simps [of n] isDigit_digitChar)
  next
    case False
    have "n mod 10 < 10" by simp
    with False "1.IH" show ?thesis
      by (simp add: digitsOf.simps [of n] isDigit_digitChar)
  qed
qed

lemma digitsOf_not_Nil: "digitsOf n \<noteq> []"
  by (simp add: digitsOf.simps [of n])

lemma last_digitsOf: "isDigit (last (digitsOf n))"
  using digitsOf_digits [of n] digitsOf_not_Nil [of n] by (meson last_in_set)

lemma hd_digitsOf: "isDigit (hd (digitsOf n))"
  using digitsOf_digits [of n] digitsOf_not_Nil [of n] by (meson hd_in_set)

lemma hd_digitsOf_pos: "0 < n \<Longrightarrow> hd (digitsOf n) \<noteq> CHR ''0''"
proof (induction n rule: digitsOf.induct)
  case (1 n)
  show ?case
  proof (cases "n < 10")
    case True
    have "byte (digitChar n) \<noteq> byte (CHR ''0'')"
      using True "1.prems" by (simp add: byte_digitChar byte_values)
    then have "digitChar n \<noteq> CHR ''0''" by auto
    with True show ?thesis by (simp add: digitsOf.simps [of n])
  next
    case False
    then have "0 < n div 10" by simp
    from "1.IH" [OF False this] False show ?thesis
      by (simp add: digitsOf.simps [of n] digitsOf_not_Nil)
  qed
qed

lemma parseDigits_append:
  "parseDigits b a (xs @ ys)
     = (case parseDigits b a xs of None \<Rightarrow> None | Some a' \<Rightarrow> parseDigits b a' ys)"
  by (induction xs arbitrary: a) (auto split: option.splits)

lemma parseDigits_digitsOf: "parseDigits 10 0 (digitsOf n) = Some (int n)"
proof (induction n rule: digitsOf.induct)
  case (1 n)
  show ?case
  proof (cases "n < 10")
    case True
    with isDigit_facts(2,6) [OF isDigit_digitChar [OF True]] show ?thesis
      by (simp add: digitsOf.simps [of n] byte_digitChar)
  next
    case False
    have m: "n mod 10 < 10" by simp
    have "int (n div 10) * 10 + int (n mod 10) = int n"
      by (metis mult.commute of_nat_add of_nat_mult of_nat_numeral div_mult_mod_eq)
    with False "1.IH" isDigit_facts(2,6) [OF isDigit_digitChar [OF m]] show ?thesis
      by (simp add: digitsOf.simps [of n] parseDigits_append byte_digitChar)
  qed
qed

lemma takeWhile_digits:
  "takeWhile (\<lambda>c. c \<in> set ''0123456789_'') (digitsOf n) = digitsOf n"
proof -
  have "\<forall>c \<in> set (digitsOf n). c \<in> set ''0123456789_''"
    using digitsOf_digits [of n] isDigit_in_decimal by blast
  then show ?thesis by (simp only: takeWhile_eq_all_conv)
qed

text \<open>\<open>scanInt\<close> reads the decimal digits of a positive \<open>int\<close> back.\<close>

lemma scanInt_itoa:
  assumes "0 < i" "i < 9223372036854775808"
  shows "scanInt (itoa i) = Some i"
proof -
  let ?ds = "digitsOf (nat i)"
  have i: "itoa i = ?ds" using assms by (simp add: itoa_def)
  have n: "?ds \<noteq> []" by (rule digitsOf_not_Nil)
  have h: "hd ?ds \<noteq> CHR ''+''" "hd ?ds \<noteq> CHR ''-''" "hd ?ds \<noteq> CHR ''0''"
    "hd ?ds \<in> set ''0123456789_''"
    using isDigit_facts(3,4) [OF hd_digitsOf] hd_digitsOf_pos [of "nat i"] assms(1)
      isDigit_in_decimal [OF hd_digitsOf, of "nat i"]
    by (simp_all del: set_simps)
  have u: "CHR ''_'' \<notin> set ?ds"
    using digitsOf_digits [of "nat i"] isDigit_facts(2) by blast
  have p: "ParseUint ?ds = Some i"
    using n h(3) u assms by (simp add: ParseUint_def parseDigits_digitsOf)
  have "ParseInt ?ds = Some i"
    using n h(1,2) assms by (simp add: ParseInt_def p)
  then have "scanInt ?ds = Some i"
    using n h by (simp add: scanInt_def Let_def takeWhile_digits del: set_simps)
  with i show ?thesis by simp
qed

text \<open>A value that is valid UTF-8 and free of white space holds no newline, and the
  scanner skips no byte of it.\<close>

lemma plain_no_NL:
  assumes "validUTF8 k" "noSpace k"
  shows "CHR 0x0A \<notin> set k"
proof -
  have "token [] (k @ []) = ([] @ k, [])"
    by (rule token_plain [OF assms]) simp
  then have "fst (token [] k) = k" by simp
  with token_no_NL [of "[]" k] show ?thesis by simp
qed

lemma SkipSpace_plain:
  assumes "k \<noteq> []" "validUTF8 k" "noSpace k"
  shows "SkipSpace (k @ rest) = Some (k @ rest)"
proof -
  from assms(1) obtain c k' where k: "k = c # k'" by (cases k) auto
  from assms(2) have v: "DecodeRune (c # k') \<noteq> (RuneError, 1)"
    by (simp add: k validUTF8.simps(2))
  from assms(3) have n: "\<not> isSpace (fst (DecodeRune (c # k')))"
    by (simp add: k noSpace.simps(2))
  from plain_no_NL [OF assms(2,3)] have c: "c \<noteq> CHR 0x0A" by (auto simp: k)
  show ?thesis
    using c n by (simp add: k SkipSpace.simps(2) DecodeRune_append [OF v])
qed

lemma SkipSpace_blank_digit:
  assumes "isDigit d"
  shows "SkipSpace (CHR '' '' # d # ds) = Some (d # ds)"
proof -
  have s: "DecodeRune (CHR '' '' # d # ds) = (32, 1)"
    using DecodeRune_ascii [of "CHR '' ''" "d # ds"] by (simp add: byte_values)
  have "SkipSpace (CHR '' '' # d # ds) = SkipSpace (d # ds)"
    by (simp add: SkipSpace.simps(2) [of "CHR '' ''"] s isSpace_def)
  also have "\<dots> = Some (d # ds)"
    using isDigit_facts(1,7,8) [OF assms]
    by (simp add: SkipSpace.simps(2) [of d])
  finally show ?thesis .
qed

text \<open>\<open>Sscanf\<close> reads the line printed for a plain entry back as that entry.\<close>

lemma Sscanf_countLine:
  assumes "plainEntry e"
  shows "Sscanf (countLine e) = (fst e, snd e, 2)"
proof -
  let ?k = "fst e"
  let ?ds = "itoa (snd e)"
  from assms have k: "?k \<noteq> []" "validUTF8 ?k" "noSpace ?k"
    and c: "0 < snd e" "snd e < 9223372036854775808"
    by (simp_all add: plainEntry_def)
  have i: "?ds = digitsOf (nat (snd e))" using c by (simp add: itoa_def)
  obtain d ds where ds: "?ds = d # ds" and d: "isDigit d"
    using hd_digitsOf [of "nat (snd e)"] digitsOf_not_Nil [of "nat (snd e)"]
    by (cases "digitsOf (nat (snd e))") (auto simp: i)
  have l: "countLine e = ?k @ CHR '' '' # d # ds"
    by (simp add: countLine_def ds)
  have s1: "SkipSpace (countLine e) = Some (?k @ CHR '' '' # d # ds)"
    unfolding l by (rule SkipSpace_plain [OF k])
  have b: "isSpace (fst (DecodeRune (CHR '' '' # d # ds)))"
    using DecodeRune_ascii [of "CHR '' ''" "d # ds"] by (simp add: byte_values isSpace_def)
  have t: "token [] (?k @ CHR '' '' # d # ds) = (?k, CHR '' '' # d # ds)"
    using token_plain [OF k(2,3), of "CHR '' '' # d # ds" "[]"] b by simp
  have s2: "SkipSpace (CHR '' '' # d # ds) = Some (d # ds)"
    by (rule SkipSpace_blank_digit [OF d])
  have n: "scanInt (d # ds) = Some (snd e)"
    using scanInt_itoa [OF c] by (simp add: ds)
  obtain c0 k' where k': "?k = c0 # k'" using k(1) by (cases ?k) auto
  have ne: "?k @ CHR '' '' # d # ds = c0 # (k' @ CHR '' '' # d # ds)" by (simp add: k')
  show ?thesis
    unfolding Sscanf_def s1 option.case
    by (simp only: ne list.case) (simp only: ne [symmetric] t prod.case Let_def s2 option.case n)
qed

lemma scanPair_countLine: "plainEntry e \<Longrightarrow> scanPair (countLine e) = e"
  by (simp add: scanPair_def Sscanf_countLine)

text \<open>The scanner gives the lines printed back.\<close>

lemma rawLines_line:
  "CHR 0x0A \<notin> set l \<Longrightarrow> rawLines cur (l @ CHR 0x0A # rest) = (cur @ l) # rawLines [] rest"
  by (induction l arbitrary: cur) auto

lemma rawLines_lines:
  "\<forall>l \<in> set ls. CHR 0x0A \<notin> set l
   \<Longrightarrow> rawLines [] (concat (map (\<lambda>l. l @ [CHR 0x0A]) ls)) = ls"
proof (induction ls)
  case Nil
  show ?case by simp
next
  case (Cons l ls)
  then show ?case using rawLines_line [of l "[]"] by simp
qed

lemma scanTokens_short:
  "\<forall>l \<in> set ls. int (length l) < MaxScanTokenSize \<and> dropCR l = l
   \<Longrightarrow> scanTokens ls = (ls, None)"
  by (induction ls) auto

lemma countLine_line:
  assumes "plainEntry e"
  shows "CHR 0x0A \<notin> set (countLine e)" "dropCR (countLine e) = countLine e"
    "int (length (countLine e)) < MaxScanTokenSize"
proof -
  from assms have k: "validUTF8 (fst e)" "noSpace (fst e)" and c: "0 < snd e"
    and m: "int (length (countLine e)) < MaxScanTokenSize"
    by (simp_all add: plainEntry_def)
  show "CHR 0x0A \<notin> set (countLine e)"
    by (rule countLine_no_NL [OF plain_no_NL [OF k]])
  have i: "itoa (snd e) = digitsOf (nat (snd e))" using c by (simp add: itoa_def)
  have "last (countLine e) = last (digitsOf (nat (snd e)))"
    by (simp add: countLine_def i digitsOf_not_Nil)
  with isDigit_facts(5) [OF last_digitsOf, of "nat (snd e)"]
  show "dropCR (countLine e) = countLine e" by (simp add: dropCR_def)
  show "int (length (countLine e)) < MaxScanTokenSize" by (rule m)
qed

lemma Scan_written:
  assumes "\<forall>e \<in> set es. plainEntry e"
  shows "Scan (concat (map (\<lambda>e. countLine e @ [CHR 0x0A]) es)) = (map countLine es, None)"
proof -
  have "concat (map (\<lambda>e. countLine e @ [CHR 0x0A]) es)
          = concat (map (\<lambda>l. l @ [CHR 0x0A]) (map countLine es))"
    by (simp add: comp_def)
  moreover have "rawLines [] (concat (map (\<lambda>l. l @ [CHR 0x0A]) (map countLine es)))
                   = map countLine es"
    by (rule rawLines_lines) (use assms countLine_line(1) in auto)
  moreover have "scanTokens (map countLine es) = (map countLine es, None)"
    by (rule scanTokens_short) (use assms countLine_line(2,3) in auto)
  ultimately show ?thesis by (simp add: Scan_def)
qed

text \<open>The pairs read from the lines printed for plain entries are those entries.\<close>

lemma pairsRead_written:
  assumes "\<forall>e \<in> set es. plainEntry e"
  shows "pairsRead (concat (map (\<lambda>e. countLine e @ [CHR 0x0A]) es)) = es"
proof -
  have "map scanPair (map countLine es) = es"
    using assms by (induction es) (simp_all add: scanPair_countLine)
  then show ?thesis by (simp add: pairsRead_def Scan_written [OF assms])
qed

section \<open>The tables of a map task\<close>

text \<open>The walk over a field and what follows it is the walk over its first part and
  the rest, then the walk over its second part.\<close>

lemma walksOver_append:
  "walksOver a (b @ rest) \<Longrightarrow> walksOver b rest \<Longrightarrow> walksOver (a @ b) rest"
proof (induction a "b @ rest" rule: walksOver.induct)
  case 1
  then show ?case by simp
next
  case (2 c k)
  let ?w = "snd (DecodeRune (c # k @ b @ rest))"
  from "2.prems"(1) have n: "\<not> isSpace (fst (DecodeRune (c # k @ b @ rest)))"
    and w: "?w \<le> Suc (length k)"
    and r: "walksOver (drop (?w - 1) k) (b @ rest)"
    by (simp_all add: walksOver.simps(2))
  have d: "drop (?w - 1) (k @ b) = drop (?w - 1) k @ b" using w by simp
  from "2.hyps" [OF r "2.prems"(2)] n w show ?case
    by (simp add: walksOver.simps(2) d)
qed

text \<open>One rune that is not white space, in front of the rest of the line.\<close>

lemma walksOver_rune:
  assumes "\<not> isSpace (fst (DecodeRune (c # s)))"
  shows "walksOver (take (snd (DecodeRune (c # s))) (c # s))
           (drop (snd (DecodeRune (c # s)) - 1) s)"
proof -
  let ?w = "snd (DecodeRune (c # s))"
  have t: "take ?w (c # s) = c # take (?w - 1) s"
    using DecodeRune_width(1) [of c s] by (cases ?w) simp_all
  have l: "length (take (?w - 1) s) = ?w - 1"
    using DecodeRune_width(2) [of c s] by simp
  have e: "c # take (?w - 1) s @ drop (?w - 1) s = c # s" by simp
  have "walksOver (c # take (?w - 1) s) (drop (?w - 1) s)"
    using assms DecodeRune_width(1) [of c s]
    by (simp only: walksOver.simps(2) e l) simp
  then show ?thesis by (simp only: t)
qed

text \<open>Each field of a line is not empty and lies in the line at rune boundaries, with
  no white space in it.\<close>

lemma FieldsFrom_walks:
  assumes "walksOver cur s"
  shows "\<forall>f \<in> set (FieldsFrom cur s). f \<noteq> [] \<and> (\<exists>rest. walksOver f rest)"
  using assms
proof (induction cur s rule: FieldsFrom.induct)
  case (1 cur)
  then show ?case by auto
next
  case (2 cur c s)
  let ?w = "snd (DecodeRune (c # s))"
  show ?case
  proof (cases "isSpace (fst (DecodeRune (c # s)))")
    case True
    have "\<forall>f \<in> set (FieldsFrom [] (drop (?w - 1) s)). f \<noteq> [] \<and> (\<exists>rest. walksOver f rest)"
      by (rule "2.IH"(1) [OF True]) simp
    with True "2.prems" show ?thesis by (auto simp: FieldsFrom.simps(2))
  next
    case False
    let ?r = "take ?w (c # s)"
    let ?rest = "drop (?w - 1) s"
    have e: "?r @ ?rest = c # s"
      using DecodeRune_width(1) [of c s] by (cases ?w) simp_all
    have "walksOver cur (?r @ ?rest)" using "2.prems" by (simp only: e)
    from walksOver_append [OF this walksOver_rune [OF False]]
    have "walksOver (cur @ ?r) ?rest" .
    from "2.IH"(2) [OF False this] False show ?thesis by (simp add: FieldsFrom.simps(2))
  qed
qed

text \<open>A field that is valid UTF-8 has, read on its own, the runes it has in its line:
  it is free of white space.\<close>

lemma walksOver_noSpace:
  "validUTF8 f \<Longrightarrow> walksOver f rest \<Longrightarrow> noSpace f"
proof (induction f rule: validUTF8.induct)
  case 1
  show ?case by simp
next
  case (2 c f)
  from "2.prems"(1) have v: "DecodeRune (c # f) \<noteq> (RuneError, 1)"
    and r: "validUTF8 (drop (snd (DecodeRune (c # f)) - 1) f)"
    by (simp_all add: validUTF8.simps(2))
  note d = DecodeRune_append [OF v, of rest]
  from "2.prems"(2) have n: "\<not> isSpace (fst (DecodeRune (c # f)))"
    and w: "walksOver (drop (snd (DecodeRune (c # f)) - 1) f) rest"
    by (simp_all add: walksOver.simps(2) d)
  from "2.IH" [OF r w] n show ?case by (simp add: noSpace.simps(2))
qed

lemma Fields_plain:
  assumes "f \<in> set (Fields l)"
  shows "f \<noteq> []" and "validUTF8 f \<Longrightarrow> noSpace f"
proof -
  from FieldsFrom_walks [of "[]" l] assms obtain rest where
    n: "f \<noteq> []" and w: "walksOver f rest"
    by (auto simp: Fields_def)
  show "f \<noteq> []" by (rule n)
  show "noSpace f" if "validUTF8 f" using that w by (rule walksOver_noSpace)
qed

lemma ParseEHR_fields:
  assumes "ParseEHR l = Inr ehr"
  shows "Diagnosis ehr \<in> set (Fields l)" "Treatment ehr \<in> set (Fields l)"
  using assms
  by (auto simp: ParseEHR_def index_def Let_def split: if_splits)

text \<open>What the entries of a table may be after one more count.\<close>

lemma addCount_entry:
  assumes "e \<in> set (addCount k c m)"
  shows "e \<in> set m \<or> e = (k, wrap64 c) \<or> (\<exists>v. (k, v) \<in> set m \<and> e = (k, wrap64 (v + c)))"
  using assms by (induction m) (auto split: if_splits)

text \<open>The values of the tables of a map task are fields of its lines, and a count is
  at most the number of lines (which is taken to be below \<open>2^63\<close>: no count wraps
  around).\<close>

lemma tallyInv_addCount:
  assumes "tallyInv n m" "k \<noteq> []" "validUTF8 k \<longrightarrow> noSpace k"
    and "int (Suc n) < 9223372036854775808"
  shows "tallyInv (Suc n) (addCount k 1 m)"
  unfolding tallyInv_def
proof
  fix e
  assume "e \<in> set (addCount k 1 m)"
  from addCount_entry [OF this] consider (old) "e \<in> set m" | (first) "e = (k, wrap64 1)"
    | (more) v where "(k, v) \<in> set m" "e = (k, wrap64 (v + 1))" by blast
  then show
    "fst e \<noteq> [] \<and> (validUTF8 (fst e) \<longrightarrow> noSpace (fst e)) \<and> 0 < snd e \<and> snd e \<le> int (Suc n)"
  proof cases
    case old
    with assms(1) show ?thesis by (fastforce simp: tallyInv_def)
  next
    case first
    have "wrap64 1 = 1" by (simp add: wrap64_id)
    with first assms(2,3) show ?thesis by simp
  next
    case more
    from more(1) assms(1) have v: "0 < v" "v \<le> int n" by (auto simp: tallyInv_def)
    with assms(4) have "wrap64 (v + 1) = v + 1" by (intro wrap64_id) simp_all
    with more(2) v assms(2,3) show ?thesis by simp
  qed
qed

lemma tallyLines_inv:
  assumes "tallyLines ls acc = Inr res" "tallyInv n (fst acc)" "tallyInv n (snd acc)"
    and "int (n + length ls) < 9223372036854775808"
  shows "tallyInv (n + length ls) (fst res) \<and> tallyInv (n + length ls) (snd res)"
  using assms
proof (induction ls arbitrary: acc n)
  case Nil
  then show ?case by simp
next
  case (Cons l ls)
  from Cons.prems(1) obtain ehr where p: "ParseEHR l = Inr ehr"
    and t: "tallyLines ls (addCount (Diagnosis ehr) 1 (fst acc),
                           addCount (Treatment ehr) 1 (snd acc)) = Inr res"
    by (auto split: sum.splits)
  note d = Fields_plain [OF ParseEHR_fields(1) [OF p]]
  note e = Fields_plain [OF ParseEHR_fields(2) [OF p]]
  from Cons.prems(4) have b: "int (Suc n) < 9223372036854775808"
    and b': "int (Suc n + length ls) < 9223372036854775808" by simp_all
  have "tallyInv (Suc n) (addCount (Diagnosis ehr) 1 (fst acc))"
    using tallyInv_addCount [OF Cons.prems(2) _ _ b] d by simp
  moreover have "tallyInv (Suc n) (addCount (Treatment ehr) 1 (snd acc))"
    using tallyInv_addCount [OF Cons.prems(3) _ _ b] e by simp
  ultimately show ?case
    using Cons.IH [OF t _ _ b'] by simp
qed

lemma tallyLines_distinct:
  assumes "tallyLines ls acc = Inr res" "distinct (map fst (fst acc))" "distinct (map fst (snd acc))"
  shows "distinct (map fst (fst res)) \<and> distinct (map fst (snd res))"
  using assms
proof (induction ls arbitrary: acc)
  case Nil
  then show ?case by simp
next
  case (Cons l ls)
  from Cons.prems(1) obtain ehr :: EHR where
    t: "tallyLines ls (addCount (Diagnosis ehr) 1 (fst acc),
                       addCount (Treatment ehr) 1 (snd acc)) = Inr res"
    by (auto split: sum.splits)
  from Cons.IH [OF t] Cons.prems(2,3) show ?case by (simp add: distinct_addCount)
qed

lemma tallyInv_plain:
  assumes "tallyInv n m" "int n < 9223372036854775808"
    "\<forall>e \<in> set m. validUTF8 (fst e)"
    "\<forall>e \<in> set m. int (length (countLine e)) < MaxScanTokenSize"
  shows "\<forall>e \<in> set m. plainEntry e"
  using assms by (fastforce simp: tallyInv_def plainEntry_def)

section \<open>The intermediate files: write, then read\<close>

lemma names_differ: "diagnosisName f t \<noteq> treatmentName f' t'"
  by (simp add: diagnosisName_def treatmentName_def)

text \<open>The two files a map task leaves when it reports \<open>nil\<close>.\<close>

lemma MapTask_files:
  assumes "MapTask filename task fs sd st = Inr (None, fs')"
    and "contents fs filename = Some bs"
  shows "\<exists>tally. tallyLines (fst (Scan bs)) ([], []) = Inr tally
    \<and> contents fs' (diagnosisName filename task)
        = Some (concat (map (\<lambda>e. countLine e @ [CHR 0x0A]) (rangeOrder sd (fst tally))))
    \<and> contents fs' (treatmentName filename task)
        = Some (concat (map (\<lambda>e. countLine e @ [CHR 0x0A]) (rangeOrder st (snd tally))))"
proof -
  let ?dn = "diagnosisName filename task"
  let ?tn = "treatmentName filename task"
  from assms obtain tally fs1 fs3 where
    t: "tallyLines (fst (Scan bs)) ([], []) = Inr tally"
    and c1: "os_Create fs ?dn = Inr fs1"
    and c3: "os_Create (writeCounts fs1 ?dn sd (fst tally)) ?tn = Inr fs3"
    and f: "fs' = writeCounts fs3 ?tn st (snd tally)"
    by (auto simp: MapTask_def os_Open_def Let_def split: sum.splits option.splits)
  let ?fs2 = "writeCounts fs1 ?dn sd (fst tally)"
  let ?d = "concat (map (\<lambda>e. countLine e @ [CHR 0x0A]) (rangeOrder sd (fst tally)))"
  let ?t = "concat (map (\<lambda>e. countLine e @ [CHR 0x0A]) (rangeOrder st (snd tally)))"
  have n1: "contents fs1 ?dn = Some []" by (simp add: os_Create_Inr(1) [OF c1])
  have d2: "contents ?fs2 ?dn = Some ?d"
    using writeCounts_contents [OF n1, of sd "fst tally"] by simp
  have n3: "contents fs3 ?tn = Some []" by (simp add: os_Create_Inr(1) [OF c3])
  have d3: "contents fs3 ?dn = Some ?d"
    using os_Create_other [OF c3 names_differ] d2 by simp
  have t4: "contents fs' ?tn = Some ?t"
    unfolding f using writeCounts_contents [OF n3, of st "snd tally"] by simp
  have d4: "contents fs' ?dn = Some ?d"
    unfolding f using writeCounts_other [OF names_differ, of fs3 filename task st "snd tally"] d3
    by simp
  from t d4 t4 show ?thesis by blast
qed

text \<open>The files a map task leaves are the output of a map task, in the sense of
  \<open>mapOutput\<close>, when the values it counted are valid UTF-8.\<close>

lemma MapTask_mapOutput:
  assumes "MapTask filename task fs sd st = Inr (None, fs')"
    and "contents fs filename = Some bs"
    and "tallyLines (fst (Scan bs)) ([], []) = Inr tally"
    and "\<forall>e \<in> set (fst tally) \<union> set (snd tally). validUTF8 (fst e)"
    and "\<forall>e \<in> set (fst tally) \<union> set (snd tally). int (length (countLine e)) < MaxScanTokenSize"
    and "int (length (fst (Scan bs))) < 9223372036854775808"
    and "nat task < length (Files r)" "Files r ! nat task = filename"
  shows "mapOutput r fs' task sd st (fst tally) (snd tally)"
proof -
  from MapTask_files [OF assms(1,2)] assms(3)
  have d: "contents fs' (diagnosisName filename task)
             = Some (concat (map (\<lambda>e. countLine e @ [CHR 0x0A]) (rangeOrder sd (fst tally))))"
    and t: "contents fs' (treatmentName filename task)
             = Some (concat (map (\<lambda>e. countLine e @ [CHR 0x0A]) (rangeOrder st (snd tally))))"
    by auto
  have "tallyInv 0 (fst ([], []))" "tallyInv 0 (snd ([], []))" by (simp_all add: tallyInv_def)
  from tallyLines_inv [OF assms(3) this] assms(6)
  have i: "tallyInv (length (fst (Scan bs))) (fst tally)"
    "tallyInv (length (fst (Scan bs))) (snd tally)" by simp_all
  have p: "\<forall>e \<in> set (fst tally). plainEntry e" "\<forall>e \<in> set (snd tally). plainEntry e"
    using tallyInv_plain [OF i(1) assms(6)] tallyInv_plain [OF i(2) assms(6)] assms(4,5)
    by simp_all
  have "distinct (map fst (fst ([], [])))" "distinct (map fst (snd ([], [])))" by simp_all
  from tallyLines_distinct [OF assms(3) this]
  have q: "distinct (map fst (fst tally))" "distinct (map fst (snd tally))" by simp_all
  from p q d t assms(7,8) show ?thesis by (auto simp: mapOutput_def)
qed

text \<open>
  C5 (as the claim states it, refuted). The claim says that the pairs read back
  from an intermediate file are the pairs the map task wrote, for every map task.
  \<open>Sscanf\<close> reads runes and builds its token from them: a byte that is no valid
  UTF-8 is read as U+FFFD. The map task of the partition \<open>x.txt\<close> counts the
  diagnosis \<open>0xFF\<close> once and writes that byte and the count 1; the pair read back has
  the three bytes of U+FFFD as its value.
\<close>

theorem C5_counterexample:
  "reported (MapTask ''x.txt'' 0 fsFF [] []) = Inr None
   \<and> tallyLines (fst (Scan (bytesOf fsFF ''x.txt''))) ([], [])
       = Inr ([([CHR 0xFF], 1)], [(''rest'', 1)])
   \<and> fileAfter (MapTask ''x.txt'' 0 fsFF [] []) (diagnosisName ''x.txt'' 0)
       = Some ([CHR 0xFF] @ '' 1\<newline>'')
   \<and> pairsRead ([CHR 0xFF] @ '' 1\<newline>'') = [([CHR 0xEF, CHR 0xBF, CHR 0xBD], 1)]"
  by code_simp

text \<open>
  C5 (amended). For every map task that completes and whose tables have values that
  are valid UTF-8, provided each line it prints is shorter than the scanner's limit
  (\<open>MaxScanTokenSize\<close>, 64 KiB) and the partition has fewer than \<open>2^63\<close> lines: each
  intermediate file holds one line \<open>value count\<close> for each entry of the task's table,
  the scanner of the reduce task reads the file to its end without error, and the
  pairs it reads are, as a multiset, the entries of the table.
\<close>

theorem C5_write_read_roundtrip:
  assumes "MapTask filename task fs sd st = Inr (None, fs')"
    and "contents fs filename = Some bs"
    and "tallyLines (fst (Scan bs)) ([], []) = Inr tally"
    and "\<forall>e \<in> set (fst tally) \<union> set (snd tally). validUTF8 (fst e)"
    and "\<forall>e \<in> set (fst tally) \<union> set (snd tally). int (length (countLine e)) < MaxScanTokenSize"
    and "int (length (fst (Scan bs))) < 9223372036854775808"
  shows "contents fs' (diagnosisName filename task)
        = Some (concat (map (\<lambda>e. countLine e @ [CHR 0x0A]) (rangeOrder sd (fst tally))))
    \<and> contents fs' (treatmentName filename task)
        = Some (concat (map (\<lambda>e. countLine e @ [CHR 0x0A]) (rangeOrder st (snd tally))))
    \<and> snd (Scan (bytesOf fs' (diagnosisName filename task))) = None
    \<and> snd (Scan (bytesOf fs' (treatmentName filename task))) = None
    \<and> mset (pairsRead (bytesOf fs' (diagnosisName filename task))) = mset (fst tally)
    \<and> mset (pairsRead (bytesOf fs' (treatmentName filename task))) = mset (snd tally)"
proof -
  let ?n = "length (fst (Scan bs))"
  let ?ds = "rangeOrder sd (fst tally)"
  let ?ts = "rangeOrder st (snd tally)"
  from MapTask_files [OF assms(1,2)] assms(3)
  have d: "contents fs' (diagnosisName filename task)
             = Some (concat (map (\<lambda>e. countLine e @ [CHR 0x0A]) ?ds))"
    and t: "contents fs' (treatmentName filename task)
             = Some (concat (map (\<lambda>e. countLine e @ [CHR 0x0A]) ?ts))"
    by auto
  have "tallyInv 0 (fst ([], []))" "tallyInv 0 (snd ([], []))" by (simp_all add: tallyInv_def)
  from tallyLines_inv [OF assms(3) this] assms(6)
  have i: "tallyInv ?n (fst tally)" "tallyInv ?n (snd tally)" by simp_all
  have p: "\<forall>e \<in> set (fst tally). plainEntry e" "\<forall>e \<in> set (snd tally). plainEntry e"
    using tallyInv_plain [OF i(1) assms(6)] tallyInv_plain [OF i(2) assms(6)] assms(4,5)
    by simp_all
  then have q: "\<forall>e \<in> set ?ds. plainEntry e" "\<forall>e \<in> set ?ts. plainEntry e"
    by (simp_all add: set_rangeOrder)
  have bd: "bytesOf fs' (diagnosisName filename task)
              = concat (map (\<lambda>e. countLine e @ [CHR 0x0A]) ?ds)"
    and bt: "bytesOf fs' (treatmentName filename task)
              = concat (map (\<lambda>e. countLine e @ [CHR 0x0A]) ?ts)"
    by (simp_all add: bytesOf_def d t)
  have "snd (Scan (bytesOf fs' (diagnosisName filename task))) = None"
    "snd (Scan (bytesOf fs' (treatmentName filename task))) = None"
    by (simp_all add: bd bt Scan_written [OF q(1)] Scan_written [OF q(2)])
  moreover have "mset (pairsRead (bytesOf fs' (diagnosisName filename task))) = mset (fst tally)"
    "mset (pairsRead (bytesOf fs' (treatmentName filename task))) = mset (snd tally)"
    by (simp_all add: bd bt pairsRead_written [OF q(1)] pairsRead_written [OF q(2)]
          mset_rangeOrder)
  ultimately show ?thesis using d t by blast
qed

theorem C5_write_read_roundtrip_witness:
  "\<exists>fs'. MapTask ''a.txt'' 0 fsInput [] [1] = Inr (None, fs')
     \<and> tallyLines (fst (Scan (bytesOf fsInput ''a.txt''))) ([], [])
         = Inr ([(''flu'', 2), (''cold'', 1)], [(''rest'', 2), (''pills'', 1)])
     \<and> contents fs' (diagnosisName ''a.txt'' 0)
         = Some (concat (map (\<lambda>e. countLine e @ [CHR 0x0A])
                   (rangeOrder [] [(''flu'', 2), (''cold'', 1)])))
     \<and> mset (pairsRead (bytesOf fs' (diagnosisName ''a.txt'' 0)))
         = mset [(''flu'', 2), (''cold'', 1)]
     \<and> mset (pairsRead (bytesOf fs' (treatmentName ''a.txt'' 0)))
         = mset [(''rest'', 2), (''pills'', 1)]"
proof -
  let ?bs = "bytesOf fsInput ''a.txt''"
  let ?tally = "([(''flu'', 2), (''cold'', 1)], [(''rest'', 2), (''pills'', 1)])
                  :: counts \<times> counts"
  have "reported (MapTask ''a.txt'' 0 fsInput [] [1]) = Inr None" by code_simp
  then obtain fs' where h1: "MapTask ''a.txt'' 0 fsInput [] [1] = Inr (None, fs')"
    by (cases "MapTask ''a.txt'' 0 fsInput [] [1]") (auto simp: reported_def)
  have h2: "contents fsInput ''a.txt'' = Some ?bs" by code_simp
  have h3: "tallyLines (fst (Scan ?bs)) ([], []) = Inr ?tally" by code_simp
  have h4: "\<forall>e \<in> set (fst ?tally) \<union> set (snd ?tally). validUTF8 (fst e)" by code_simp
  have h5: "\<forall>e \<in> set (fst ?tally) \<union> set (snd ?tally).
              int (length (countLine e)) < MaxScanTokenSize" by code_simp
  have h6: "int (length (fst (Scan ?bs))) < 9223372036854775808" by code_simp
  from C5_write_read_roundtrip [OF h1 h2 h3 h4 h5 h6] h1 h3 show ?thesis
    by (simp only: fst_conv snd_conv) blast
qed

section \<open>Aggregation\<close>

lemma lookup_addCount:
  "lookup (addCount k c m) V = (if V = k then wrap64 (lookup m V + c) else lookup m V)"
  by (induction m) (auto simp: lookup_def)

text \<open>The count of a value after a file is read: the count before plus the counts of
  the lines for that value, wrapped.\<close>

lemma lookup_readCounts:
  assumes "wrap64 (lookup m V) = lookup m V"
  shows "lookup (readCounts ls m) V
     = wrap64 (lookup m V + sum_list (map snd (filter (\<lambda>e. fst e = V) (map scanPair ls))))"
  using assms
proof (induction ls arbitrary: m)
  case Nil
  then show ?case by simp
next
  case (Cons l ls)
  let ?m = "addCount (fst (Sscanf l)) (fst (snd (Sscanf l))) m"
  have w: "wrap64 (lookup ?m V) = lookup ?m V"
    using Cons.prems by (simp add: lookup_addCount wrap64_idem)
  have f: "fst (scanPair l) = fst (Sscanf l)" "snd (scanPair l) = fst (snd (Sscanf l))"
    by (simp_all add: scanPair_def)
  show ?case
  proof (cases "V = fst (Sscanf l)")
    case True
    have "lookup (readCounts (l # ls) m) V
            = wrap64 (wrap64 (lookup m V + fst (snd (Sscanf l)))
                + sum_list (map snd (filter (\<lambda>e. fst e = V) (map scanPair ls))))"
      using Cons.IH [OF w] True by (simp add: lookup_addCount)
    also have "\<dots> = wrap64 (lookup m V + fst (snd (Sscanf l))
                + sum_list (map snd (filter (\<lambda>e. fst e = V) (map scanPair ls))))"
      by (rule wrap64_add)
    finally show ?thesis using True by (simp add: f add.assoc)
  next
    case False
    with Cons.IH [OF w] show ?thesis by (simp add: lookup_addCount f)
  qed
qed

lemma lookup_nonneg: "\<forall>e \<in> set m. 0 < snd e \<Longrightarrow> 0 \<le> lookup m V"
proof (cases "map_of m V")
  case None
  then show ?thesis by (simp add: lookup_def)
next
  case (Some v)
  assume p: "\<forall>e \<in> set m. 0 < snd e"
  from Some have "(V, v) \<in> set m" by (rule map_of_SomeD)
  with p have "0 < v" by fastforce
  with Some show ?thesis by (simp add: lookup_def)
qed

lemma entry_lookup: "distinct (map fst m) \<Longrightarrow> (V, c) \<in> set m \<Longrightarrow> lookup m V = c"
  by (simp add: lookup_def)

text \<open>In a table with no key twice, the counts of the entries for a value sum to the
  count looked up; the order of the entries does not matter.\<close>

lemma sum_entries_lookup:
  "distinct (map fst m) \<Longrightarrow> sum_list (map snd (filter (\<lambda>e. fst e = V) m)) = lookup m V"
proof (induction m)
  case Nil
  show ?case by (simp add: lookup_def)
next
  case (Cons e m)
  obtain k v where e: "e = (k, v)" by (cases e)
  show ?case
  proof (cases "k = V")
    case True
    with Cons.prems have "V \<notin> fst ` set m" by (simp add: e)
    then have "filter (\<lambda>e. fst e = V) m = []" by (auto simp: filter_empty_conv)
    with True show ?thesis by (simp add: e lookup_def)
  next
    case False
    with Cons show ?thesis by (simp add: e lookup_def)
  qed
qed

lemma sum_entries_mset:
  fixes es m :: "('a \<times> int) list"
  assumes "mset es = mset m"
  shows "sum_list (map snd (filter P es)) = sum_list (map snd (filter P m))"
proof -
  have "mset (map snd (filter P es)) = mset (map snd (filter P m))"
    by (simp add: assms)
  then have "sum_mset (mset (map snd (filter P es))) = sum_mset (mset (map snd (filter P m)))"
    by simp
  then show ?thesis by (simp only: sum_mset_sum_list)
qed

lemma scanPairs_written:
  "\<forall>e \<in> set es. plainEntry e \<Longrightarrow> map scanPair (map countLine es) = es"
  by (induction es) (simp_all add: scanPair_countLine)

lemma plain_positive: "\<forall>e \<in> set d. plainEntry e \<Longrightarrow> \<forall>e \<in> set d. 0 < snd e"
  by (simp add: plainEntry_def)

text \<open>Reading the file written from a table adds the counts of the table, as long as
  the sum fits an \<open>int\<close>.\<close>

lemma readCounts_written:
  assumes "\<forall>e \<in> set d. plainEntry e" "distinct (map fst d)"
    and "0 \<le> lookup m V" "lookup m V + lookup d V < 9223372036854775808"
  shows "lookup (readCounts (map countLine (rangeOrder sd d)) m) V = lookup m V + lookup d V"
proof -
  let ?es = "rangeOrder sd d"
  have p: "\<forall>e \<in> set ?es. plainEntry e" using assms(1) by (simp add: set_rangeOrder)
  have n: "0 \<le> lookup d V" by (rule lookup_nonneg [OF plain_positive [OF assms(1)]])
  with assms(3,4) have w: "wrap64 (lookup m V) = lookup m V" by (intro wrap64_id) simp_all
  have "sum_list (map snd (filter (\<lambda>e. fst e = V) ?es))
               = sum_list (map snd (filter (\<lambda>e. fst e = V) d))"
    by (rule sum_entries_mset) (rule mset_rangeOrder)
  also have "\<dots> = lookup d V" by (rule sum_entries_lookup [OF assms(2)])
  finally have "lookup (readCounts (map countLine ?es) m) V = wrap64 (lookup m V + lookup d V)"
    using lookup_readCounts [OF w, of "map countLine ?es"] scanPairs_written [OF p] by simp
  also have "\<dots> = lookup m V + lookup d V"
    using assms(3,4) n by (intro wrap64_id) simp_all
  finally show ?thesis .
qed

text \<open>The counts of a table stay positive when a file written from a table is read
  and the sums fit an \<open>int\<close>.\<close>

lemma readCounts_written_positive:
  assumes "\<forall>e \<in> set d. plainEntry e" "distinct (map fst d)"
    and "\<forall>e \<in> set m. 0 < snd e" "distinct (map fst m)"
    and "\<forall>V. lookup m V + lookup d V < 9223372036854775808"
  shows "\<forall>e \<in> set (readCounts (map countLine (rangeOrder sd d)) m). 0 < snd e"
proof
  fix e
  let ?ls = "map countLine (rangeOrder sd d)"
  assume e: "e \<in> set (readCounts ?ls m)"
  obtain V c where vc: "e = (V, c)" by (cases e)
  have "distinct (map fst (readCounts ?ls m))" by (rule distinct_readCounts [OF assms(4)])
  with e vc have "lookup (readCounts ?ls m) V = c" by (simp add: entry_lookup)
  moreover have m0: "0 \<le> lookup m V" by (rule lookup_nonneg [OF assms(3)])
  moreover have d0: "0 \<le> lookup d V" by (rule lookup_nonneg [OF plain_positive [OF assms(1)]])
  ultimately have c: "c = lookup m V + lookup d V"
    using readCounts_written [OF assms(1,2) m0, where sd = sd] assms(5) by simp
  from e vc have "V \<in> fst ` set (readCounts ?ls m)" by force
  then have "V \<in> fst ` set m \<or> V \<in> (\<lambda>l. fst (Sscanf l)) ` set ?ls"
    by (simp add: keys_readCounts)
  then show "0 < snd e"
  proof
    assume "V \<in> fst ` set m"
    then obtain v where v: "(V, v) \<in> set m" by auto
    with assms(3) have "0 < v" by fastforce
    moreover from v assms(4) have "lookup m V = v" by (simp add: entry_lookup)
    ultimately show ?thesis using c d0 by (simp add: vc)
  next
    assume "V \<in> (\<lambda>l. fst (Sscanf l)) ` set ?ls"
    then obtain e' where e': "e' \<in> set d" "V = fst (Sscanf (countLine e'))"
      by (auto simp: set_rangeOrder)
    from e'(1) assms(1) have p: "plainEntry e'" by simp
    with e'(2) have "V = fst e'" by (simp add: Sscanf_countLine)
    with e'(1) have "(V, snd e') \<in> set d" by simp
    with assms(2) have "lookup d V = snd e'" by (simp add: entry_lookup)
    moreover from p have "0 < snd e'" by (simp add: plainEntry_def)
    ultimately show ?thesis using c m0 by (simp add: vc)
  qed
qed

text \<open>One round of the reduce loop on the files a map task wrote.\<close>

lemma reduceStep_written:
  assumes "mapOutput r fs j sd st d t"
  shows "reduceStep j r fs acc
           = Inr (Inr (readCounts (map countLine (rangeOrder sd d)) (fst acc),
                       readCounts (map countLine (rangeOrder st t)) (snd acc)))"
proof -
  let ?f = "Files r ! nat j"
  from assms have n: "nat j < length (Files r)"
    and pd: "\<forall>e \<in> set (rangeOrder sd d). plainEntry e"
    and pt: "\<forall>e \<in> set (rangeOrder st t). plainEntry e"
    and cd: "contents fs (diagnosisName ?f j)
               = Some (concat (map (\<lambda>e. countLine e @ [CHR 0x0A]) (rangeOrder sd d)))"
    and ct: "contents fs (treatmentName ?f j)
               = Some (concat (map (\<lambda>e. countLine e @ [CHR 0x0A]) (rangeOrder st t)))"
    by (simp_all add: mapOutput_def set_rangeOrder)
  show ?thesis
    by (simp add: reduceStep_def index_def n os_Open_def cd ct
          Scan_written [OF pd] Scan_written [OF pt])
qed

lemma int_range_first: "i < n \<Longrightarrow> {i..<n} = insert i {i + 1..<n}" for i n :: int
  by auto

text \<open>The reduce loop adds up the tables of the map tasks.\<close>

lemma reduceLoop_sums:
  assumes "reduceLoop i r fs acc = Inr (Inr acc')"
    and "\<forall>j. i \<le> j \<and> j < NMap r \<longrightarrow> mapOutput r fs j (fst (seeds j)) (snd (seeds j)) (D j) (T j)"
    and "\<forall>e \<in> set (fst acc) \<union> set (snd acc). 0 < snd e"
    and "distinct (map fst (fst acc))" "distinct (map fst (snd acc))"
    and "\<forall>V. lookup (fst acc) V + (\<Sum>j \<in> {i..<NMap r}. lookup (D j) V) < 9223372036854775808"
    and "\<forall>V. lookup (snd acc) V + (\<Sum>j \<in> {i..<NMap r}. lookup (T j) V) < 9223372036854775808"
  shows "lookup (fst acc') V = lookup (fst acc) V + (\<Sum>j \<in> {i..<NMap r}. lookup (D j) V)
    \<and> lookup (snd acc') V = lookup (snd acc) V + (\<Sum>j \<in> {i..<NMap r}. lookup (T j) V)
    \<and> (\<forall>e \<in> set (fst acc') \<union> set (snd acc'). 0 < snd e)"
  using assms
proof (induction i r fs acc rule: reduceLoop.induct)
  case (1 i r fs acc)
  show ?case
  proof (cases "i < NMap r")
    case False
    with "1.prems"(1,3) show ?thesis by (simp add: reduceLoop.simps [of i r fs acc])
  next
    case True
    with "1.prems"(2) have o: "mapOutput r fs i (fst (seeds i)) (snd (seeds i)) (D i) (T i)"
      by simp
    let ?a = "(readCounts (map countLine (rangeOrder (fst (seeds i)) (D i))) (fst acc),
               readCounts (map countLine (rangeOrder (snd (seeds i)) (T i))) (snd acc))"
    have s: "reduceStep i r fs acc = Inr (Inr ?a)" by (rule reduceStep_written [OF o])
    with True "1.prems"(1) have l: "reduceLoop (i + 1) r fs ?a = Inr (Inr acc')"
      by (simp add: reduceLoop.simps [of i r fs acc])
    from o have pd: "\<forall>e \<in> set (D i). plainEntry e" and pt: "\<forall>e \<in> set (T i). plainEntry e"
      and dd: "distinct (map fst (D i))" and dt: "distinct (map fst (T i))"
      by (simp_all add: mapOutput_def)
    have rest: "\<forall>j. i + 1 \<le> j \<and> j < NMap r
                  \<longrightarrow> mapOutput r fs j (fst (seeds j)) (snd (seeds j)) (D j) (T j)"
      using "1.prems"(2) by simp
    have sd: "(\<Sum>j \<in> {i..<NMap r}. lookup (D j) W)
                = lookup (D i) W + (\<Sum>j \<in> {i + 1..<NMap r}. lookup (D j) W)"
      and st: "(\<Sum>j \<in> {i..<NMap r}. lookup (T j) W)
                = lookup (T i) W + (\<Sum>j \<in> {i + 1..<NMap r}. lookup (T j) W)" for W
      by (simp_all add: int_range_first [OF True])
    have nd: "0 \<le> (\<Sum>j \<in> {i + 1..<NMap r}. lookup (D j) W)"
      and nt: "0 \<le> (\<Sum>j \<in> {i + 1..<NMap r}. lookup (T j) W)" for W
    proof -
      have p: "0 \<le> lookup (D j) W \<and> 0 \<le> lookup (T j) W" if "j \<in> {i + 1..<NMap r}" for j
      proof -
        from that rest have "mapOutput r fs j (fst (seeds j)) (snd (seeds j)) (D j) (T j)"
          by simp
        then have "\<forall>e \<in> set (D j). plainEntry e" "\<forall>e \<in> set (T j). plainEntry e"
          by (simp_all add: mapOutput_def)
        then show ?thesis by (simp add: lookup_nonneg plain_positive)
      qed
      show "0 \<le> (\<Sum>j \<in> {i + 1..<NMap r}. lookup (D j) W)"
        by (rule sum_nonneg) (simp add: p)
      show "0 \<le> (\<Sum>j \<in> {i + 1..<NMap r}. lookup (T j) W)"
        by (rule sum_nonneg) (simp add: p)
    qed
    have a0: "0 \<le> lookup (fst acc) W" "0 \<le> lookup (snd acc) W" for W
      using "1.prems"(3) by (simp_all add: lookup_nonneg)
    have bd: "lookup (fst acc) W + lookup (D i) W < 9223372036854775808" for W
    proof -
      from "1.prems"(6)
      have "lookup (fst acc) W + (\<Sum>j \<in> {i..<NMap r}. lookup (D j) W) < 9223372036854775808"
        by (rule spec)
      with sd [of W] nd [of W] show ?thesis by simp
    qed
    have bt: "lookup (snd acc) W + lookup (T i) W < 9223372036854775808" for W
    proof -
      from "1.prems"(7)
      have "lookup (snd acc) W + (\<Sum>j \<in> {i..<NMap r}. lookup (T j) W) < 9223372036854775808"
        by (rule spec)
      with st [of W] nt [of W] show ?thesis by simp
    qed
    have rd: "lookup (readCounts (map countLine (rangeOrder (fst (seeds i)) (D i))) (fst acc)) W
                = lookup (fst acc) W + lookup (D i) W"
      and rt: "lookup (readCounts (map countLine (rangeOrder (snd (seeds i)) (T i))) (snd acc)) W
                = lookup (snd acc) W + lookup (T i) W" for W
      by (rule readCounts_written [OF pd dd a0(1) bd], rule readCounts_written [OF pt dt a0(2) bt])
    have pos: "\<forall>e \<in> set (fst ?a) \<union> set (snd ?a). 0 < snd e"
      using readCounts_written_positive [OF pd dd _ "1.prems"(4), of "fst (seeds i)"]
        readCounts_written_positive [OF pt dt _ "1.prems"(5), of "snd (seeds i)"]
        "1.prems"(3) bd bt
      by auto
    have dist: "distinct (map fst (fst ?a))" "distinct (map fst (snd ?a))"
      using "1.prems"(4,5) by (simp_all add: distinct_readCounts)
    have b1: "\<forall>V. lookup (fst ?a) V + (\<Sum>j \<in> {i + 1..<NMap r}. lookup (D j) V)
                < 9223372036854775808"
      using "1.prems"(6) by (simp add: rd sd add.assoc)
    have b2: "\<forall>V. lookup (snd ?a) V + (\<Sum>j \<in> {i + 1..<NMap r}. lookup (T j) V)
                < 9223372036854775808"
      using "1.prems"(7) by (simp add: rt st add.assoc)
    note ih = "1.IH" [OF True s refl l rest pos dist b1 b2]
    from ih show ?thesis by (simp add: sd st rd rt add.assoc)
  qed
qed

text \<open>In a table with no key twice and positive counts, the entries are the pairs of
  a value and its positive count.\<close>

lemma entry_iff_lookup:
  assumes "distinct (map fst m)" "\<forall>e \<in> set m. 0 < snd e"
  shows "(V, c) \<in> set m \<longleftrightarrow> 0 < c \<and> lookup m V = c"
proof
  assume e: "(V, c) \<in> set m"
  with assms(1) have "map_of m V = Some c" by simp
  with e assms(2) show "0 < c \<and> lookup m V = c" by (auto simp: lookup_def)
next
  assume "0 < c \<and> lookup m V = c"
  then have "map_of m V = Some c"
    by (cases "map_of m V") (auto simp: lookup_def)
  then show "(V, c) \<in> set m" by (rule map_of_SomeD)
qed

text \<open>
  C4 (as the claim states it, refuted). The claim says that the report's count for a
  value is the sum of the map tasks' counts for it whenever the intermediate files
  are present and well-formed. In the run on the partition \<open>x.txt\<close> both phases
  complete and the intermediate files are scanned to their end; the map task has
  counted the diagnosis \<open>0xFF\<close> once, but the reduce task read that value as U+FFFD:
  the report has a line for U+FFFD and none for \<open>0xFF\<close>, whose count in the table of
  the reduce task is 0.
\<close>

theorem C4_counterexample:
  "fst (main_phases [''x.txt''] None [] noSeeds ([], []) fsFF) = PhasesDone
   \<and> contents (snd (main_phases [''x.txt''] None [] noSeeds ([], []) fsFF)) reportName
       = Some (''Diagnosis Counts:\<newline>'' @ [CHR 0xEF, CHR 0xBF, CHR 0xBD]
               @ '' 1\<newline>Treatment Counts:\<newline>rest 1\<newline>'')
   \<and> tallyLines (fst (Scan (bytesOf fsFF ''x.txt''))) ([], [])
       = Inr ([([CHR 0xFF], 1)], [(''rest'', 1)])
   \<and> lookup [([CHR 0xFF], 1)] [CHR 0xFF] = 1
   \<and> intermediateOK mrX (snd (runMapTasks [(''x.txt'', 0)] noSeeds fsFF)) 0
   \<and> reduceLoop 0 mrX (snd (runMapTasks [(''x.txt'', 0)] noSeeds fsFF)) ([], [])
       = Inr (Inr ([([CHR 0xEF, CHR 0xBF, CHR 0xBD], 1)], [(''rest'', 1)]))
   \<and> lookup [([CHR 0xEF, CHR 0xBF, CHR 0xBD], 1)] [CHR 0xFF] = 0"
  by code_simp

text \<open>
  C4 (amended). Let the intermediate files of every map task \<open>0\<close> to \<open>NMap - 1\<close> be
  as the task writes them from its tables \<open>D j\<close> and \<open>T j\<close>, the values of the tables
  being valid UTF-8 (and the entries plain in the other respects a map task gives
  them: values not empty and free of white space, counts positive, lines within the
  scanner's limit), and let the sum of the tasks' counts for each value be below
  \<open>2^63\<close>, so that no addition of the reduce task wraps around. If the reduce task
  completes, then for every value \<open>V\<close> the diagnosis section of the report has the
  line \<open>V c\<close> exactly when \<open>c\<close> is the sum over the map tasks of the task's count for
  \<open>V\<close> and is positive; no value has two lines; and likewise for the treatment
  section.
\<close>

theorem C4_global_aggregation:
  assumes "ReduceTask task r fs sd st = Inr (None, fs')"
    and "\<forall>j. 0 \<le> j \<and> j < NMap r
           \<longrightarrow> mapOutput r fs j (fst (seeds j)) (snd (seeds j)) (D j) (T j)"
    and "\<forall>V. (\<Sum>j \<in> {0..<NMap r}. lookup (D j) V) < 9223372036854775808"
    and "\<forall>V. (\<Sum>j \<in> {0..<NMap r}. lookup (T j) V) < 9223372036854775808"
  shows "\<exists>ds ts.
      contents fs' = (contents fs)(reportName \<mapsto>
        ''Diagnosis Counts:'' @ [CHR 0x0A]
        @ concat (map (\<lambda>e. countLine e @ [CHR 0x0A]) ds)
        @ ''Treatment Counts:'' @ [CHR 0x0A]
        @ concat (map (\<lambda>e. countLine e @ [CHR 0x0A]) ts))
    \<and> distinct (map fst ds) \<and> distinct (map fst ts)
    \<and> (\<forall>V c. (V, c) \<in> set ds \<longleftrightarrow> 0 < c \<and> (\<Sum>j \<in> {0..<NMap r}. lookup (D j) V) = c)
    \<and> (\<forall>V c. (V, c) \<in> set ts \<longleftrightarrow> 0 < c \<and> (\<Sum>j \<in> {0..<NMap r}. lookup (T j) V) = c)"
proof -
  from ReduceTask_report [OF assms(1)] obtain acc where
    l: "reduceLoop 0 r fs ([], []) = Inr (Inr acc)"
    and c: "contents fs' = (contents fs)(reportName \<mapsto>
        ''Diagnosis Counts:'' @ [CHR 0x0A]
        @ concat (map (\<lambda>e. countLine e @ [CHR 0x0A]) (rangeOrder sd (fst acc)))
        @ ''Treatment Counts:'' @ [CHR 0x0A]
        @ concat (map (\<lambda>e. countLine e @ [CHR 0x0A]) (rangeOrder st (snd acc))))"
    by blast
  let ?ds = "rangeOrder sd (fst acc)"
  let ?ts = "rangeOrder st (snd acc)"
  have d: "distinct (map fst (fst acc))" "distinct (map fst (snd acc))"
    using reduceLoop_distinct [OF l] by simp_all
  have e: "\<forall>e \<in> set (fst ([], [])) \<union> set (snd ([], [])). 0 < snd e" by simp
  have n: "distinct (map fst (fst ([], [])))" "distinct (map fst (snd ([], [])))" by simp_all
  have b1: "\<forall>V. lookup (fst ([], [])) V + (\<Sum>j \<in> {0..<NMap r}. lookup (D j) V)
               < 9223372036854775808"
    using assms(3) by (simp add: lookup_def)
  have b2: "\<forall>V. lookup (snd ([], [])) V + (\<Sum>j \<in> {0..<NMap r}. lookup (T j) V)
               < 9223372036854775808"
    using assms(4) by (simp add: lookup_def)
  have s: "lookup (fst acc) V = (\<Sum>j \<in> {0..<NMap r}. lookup (D j) V)"
    "lookup (snd acc) V = (\<Sum>j \<in> {0..<NMap r}. lookup (T j) V)"
    and p: "\<forall>e \<in> set (fst acc) \<union> set (snd acc). 0 < snd e" for V
    using reduceLoop_sums [OF l assms(2) e n b1 b2, of V] by (simp_all add: lookup_def)
  from p have pd: "\<forall>e \<in> set (fst acc). 0 < snd e" and pt: "\<forall>e \<in> set (snd acc). 0 < snd e"
    by simp_all
  have a: "(V, c) \<in> set ?ds \<longleftrightarrow> 0 < c \<and> (\<Sum>j \<in> {0..<NMap r}. lookup (D j) V) = c" for V c
    using entry_iff_lookup [OF d(1) pd, of V c] by (simp add: set_rangeOrder s(1))
  have b: "(V, c) \<in> set ?ts \<longleftrightarrow> 0 < c \<and> (\<Sum>j \<in> {0..<NMap r}. lookup (T j) V) = c" for V c
    using entry_iff_lookup [OF d(2) pt, of V c] by (simp add: set_rangeOrder s(2))
  have dd: "distinct (map fst ?ds)" "distinct (map fst ?ts)"
    using d by (simp_all add: distinct_rangeOrder)
  from c dd a b show ?thesis by blast
qed

theorem C4_global_aggregation_witness:
  "\<exists>fs' ds ts.
      ReduceTask 0 mrAB fsMapped [] [] = Inr (None, fs')
    \<and> mapOutput mrAB fsMapped 0 [] [] (tablesD 0) (tablesT 0)
    \<and> mapOutput mrAB fsMapped 1 [] [] (tablesD 1) (tablesT 1)
    \<and> contents fs' = (contents fsMapped)(reportName \<mapsto>
        ''Diagnosis Counts:'' @ [CHR 0x0A]
        @ concat (map (\<lambda>e. countLine e @ [CHR 0x0A]) ds)
        @ ''Treatment Counts:'' @ [CHR 0x0A]
        @ concat (map (\<lambda>e. countLine e @ [CHR 0x0A]) ts))
    \<and> (\<Sum>j \<in> {0..<NMap mrAB}. lookup (tablesD j) ''flu'') = 3
    \<and> (''flu'', 3) \<in> set ds"
proof -
  have "reported (ReduceTask 0 mrAB fsMapped [] []) = Inr None" by code_simp
  then obtain fs' where h1: "ReduceTask 0 mrAB fsMapped [] [] = Inr (None, fs')"
    by (cases "ReduceTask 0 mrAB fsMapped [] []") (auto simp: reported_def)
  have m0: "mapOutput mrAB fsMapped 0 [] [] (tablesD 0) (tablesT 0)" by code_simp
  have m1: "mapOutput mrAB fsMapped 1 [] [] (tablesD 1) (tablesT 1)" by code_simp
  have h2: "\<forall>j. 0 \<le> j \<and> j < NMap mrAB
              \<longrightarrow> mapOutput mrAB fsMapped j (fst (noSeeds j)) (snd (noSeeds j))
                    (tablesD j) (tablesT j)"
  proof (intro allI impI)
    fix j :: int
    assume "0 \<le> j \<and> j < NMap mrAB"
    then have "j = 0 \<or> j = 1" by (auto simp: mrAB_def)
    with m0 m1 show "mapOutput mrAB fsMapped j (fst (noSeeds j)) (snd (noSeeds j))
                       (tablesD j) (tablesT j)"
      by (auto simp: noSeeds_def)
  qed
  have s: "(\<Sum>j \<in> {0..<NMap mrAB}. lookup (tablesD j) ''flu'') = 3" by code_simp
  have r: "{0..<NMap mrAB} = {0, 1}" by (auto simp: mrAB_def)
  have h3: "\<forall>V. (\<Sum>j \<in> {0..<NMap mrAB}. lookup (tablesD j) V) < 9223372036854775808"
    by (simp add: r tablesD_def lookup_def)
  have h4: "\<forall>V. (\<Sum>j \<in> {0..<NMap mrAB}. lookup (tablesT j) V) < 9223372036854775808"
    by (simp add: r tablesT_def lookup_def)
  from C4_global_aggregation [OF h1 h2 h3 h4] obtain ds ts where
    c: "contents fs' = (contents fsMapped)(reportName \<mapsto>
        ''Diagnosis Counts:'' @ [CHR 0x0A]
        @ concat (map (\<lambda>e. countLine e @ [CHR 0x0A]) ds)
        @ ''Treatment Counts:'' @ [CHR 0x0A]
        @ concat (map (\<lambda>e. countLine e @ [CHR 0x0A]) ts))"
    and a: "\<forall>V c. (V, c) \<in> set ds \<longleftrightarrow> 0 < c \<and> (\<Sum>j \<in> {0..<NMap mrAB}. lookup (tablesD j) V) = c"
    by blast
  from a s have "(''flu'', 3) \<in> set ds" by simp
  with h1 m0 m1 c s show ?thesis by blast
qed

end
